theory Spec2Isabelle
  imports Main "HOL-Library.Word"
begin

unbundle bit_operations_syntax

section \<open>Machine types\<close>

text \<open>
  The firmware is written for an Arduino Mega 2560 (ATmega2560, avr-gcc): \<open>byte\<close> and
  \<open>uint8_t\<close> are 8 bits and \<open>int\<close> is 16 bits. Arithmetic on \<open>int\<close> is modelled with
  wrap-around on 16 bits, which is what the AVR instructions compute. Loop counters and
  array indices (\<open>x\<close>, \<open>iBufferUsed\<close>) never exceed 255 and are natural numbers.
\<close>

type_synonym byte = "8 word"
type_synonym int16 = "16 word"

section \<open>Constants of the sketch\<close>

definition hex :: string where
  "hex = ''0123456789abcdef''"

definition version_string :: string where
  "version_string = ''EEPROM Version=0.03''"

definition kPin_Addr14 :: nat where "kPin_Addr14 = 24"
definition kPin_Addr12 :: nat where "kPin_Addr12 = 26"
definition kPin_Addr7 :: nat where "kPin_Addr7 = 28"
definition kPin_Addr6 :: nat where "kPin_Addr6 = 30"
definition kPin_Addr5 :: nat where "kPin_Addr5 = 32"
definition kPin_Addr4 :: nat where "kPin_Addr4 = 34"
definition kPin_Addr3 :: nat where "kPin_Addr3 = 36"
definition kPin_Addr2 :: nat where "kPin_Addr2 = 38"
definition kPin_Addr1 :: nat where "kPin_Addr1 = 40"
definition kPin_Addr0 :: nat where "kPin_Addr0 = 42"
definition kPin_Data0 :: nat where "kPin_Data0 = 44"
definition kPin_Data1 :: nat where "kPin_Data1 = 46"
definition kPin_Data2 :: nat where "kPin_Data2 = 48"
definition kPin_nWE :: nat where "kPin_nWE = 27"
definition kPin_Addr13 :: nat where "kPin_Addr13 = 29"
definition kPin_Addr8 :: nat where "kPin_Addr8 = 31"
definition kPin_Addr9 :: nat where "kPin_Addr9 = 33"
definition kPin_Addr11 :: nat where "kPin_Addr11 = 35"
definition kPin_nOE :: nat where "kPin_nOE = 37"
definition kPin_Addr10 :: nat where "kPin_Addr10 = 39"
definition kPin_nCE :: nat where "kPin_nCE = 41"
definition kPin_Data7 :: nat where "kPin_Data7 = 43"
definition kPin_Data6 :: nat where "kPin_Data6 = 45"
definition kPin_Data5 :: nat where "kPin_Data5 = 47"
definition kPin_Data4 :: nat where "kPin_Data4 = 49"
definition kPin_Data3 :: nat where "kPin_Data3 = 51"
definition kPin_WaitingForInput :: nat where "kPin_WaitingForInput = 13"
definition kPin_LED_Red :: nat where "kPin_LED_Red = 22"
definition kPin_LED_Grn :: nat where "kPin_LED_Grn = 53"

definition kMaxBufferSize :: nat where "kMaxBufferSize = 16"
definition kPageSize :: nat where "kPageSize = 128"

text \<open>The levels \<open>HIGH\<close>/\<open>LOW\<close> are \<open>True\<close>/\<open>False\<close>; the pin modes \<open>OUTPUT\<close>/\<open>INPUT\<close>
  are \<open>True\<close>/\<open>False\<close>.\<close>

abbreviation (input) HIGH :: bool where "HIGH \<equiv> True"
abbreviation (input) LOW :: bool where "LOW \<equiv> False"
abbreviation (input) OUTPUT :: bool where "OUTPUT \<equiv> True"
abbreviation (input) INPUT :: bool where "INPUT \<equiv> False"

section \<open>State\<close>

text \<open>
  An access to \<open>buffer\<close> or \<open>pageWr\<close> with an index outside the array is undefined
  behaviour in C++. The model does not stop there: it records the access in the field
  \<open>oob\<close> and goes on, as the AVR does. The arrays are functions of the index; the
  cells below the capacity are the array, the cells from the capacity on stand for the
  memory that follows it. Which object lies there is the linker's choice: the model does
  not say which global a store past an array overwrites, nor which byte a load past an
  array returns. It agrees with the program as long as \<open>oob\<close> does not grow; of a run
  that accesses an array out of bounds it gives the accesses, in their order.
\<close>

datatype access = Buffer_index nat | PageWr_index nat

record state =
  level :: "nat \<Rightarrow> bool"
  mode :: "nat \<Rightarrow> bool"
  chip :: "nat \<Rightarrow> byte"
  g_cmd :: "byte list"
  buffer :: "nat \<Rightarrow> byte"
  pageWr :: "nat \<Rightarrow> byte"
  baseAddr :: int16
  serial :: string
  oob :: "access list"

text \<open>
  \<open>g_cmd\<close> holds the bytes that \<open>ReadString\<close> stored before the terminating zero.
  No handler reads \<open>g_cmd\<close> past the first zero byte, so the stale bytes behind the
  terminator are left out, and a read at the end of the list gives the terminator.
\<close>

definition g_at :: "state \<Rightarrow> nat \<Rightarrow> byte" where
  "g_at s x = (if x < length (g_cmd s) then g_cmd s ! x else 0)"

definition buffer_check :: "nat \<Rightarrow> state \<Rightarrow> state" where
  "buffer_check i s = (if i < kMaxBufferSize then s else s\<lparr>oob := oob s @ [Buffer_index i]\<rparr>)"

definition pageWr_check :: "nat \<Rightarrow> state \<Rightarrow> state" where
  "pageWr_check i s = (if i < kPageSize then s else s\<lparr>oob := oob s @ [PageWr_index i]\<rparr>)"

definition buffer_store :: "nat \<Rightarrow> byte \<Rightarrow> state \<Rightarrow> state" where
  "buffer_store i v s = (buffer_check i s)\<lparr>buffer := (buffer s)(i := v)\<rparr>"

definition pageWr_store :: "nat \<Rightarrow> byte \<Rightarrow> state \<Rightarrow> state" where
  "pageWr_store i v s = (pageWr_check i s)\<lparr>pageWr := (pageWr s)(i := v)\<rparr>"

section \<open>Serial output\<close>

text \<open>
  \<open>Serial.print\<close> and \<open>Serial.println\<close> belong to the Arduino core. \<open>println\<close> sends
  its argument and then carriage return and line feed; \<open>print(b, HEX)\<close> of a byte
  sends the upper-case hexadecimal digits of \<open>b\<close> without leading zeros.
\<close>

definition crlf :: string where
  "crlf = [CHR 0x0D, CHR 0x0A]"

definition Serial_print :: "string \<Rightarrow> state \<Rightarrow> state" where
  "Serial_print str s = s\<lparr>serial := serial s @ str\<rparr>"

definition Serial_println :: "string \<Rightarrow> state \<Rightarrow> state" where
  "Serial_println str s = s\<lparr>serial := serial s @ str @ crlf\<rparr>"

definition HEX_digits :: string where
  "HEX_digits = ''0123456789ABCDEF''"

definition print_HEX :: "byte \<Rightarrow> string" where
  "print_HEX b = (if drop_bit 4 b = 0 then [] else [HEX_digits ! unat (drop_bit 4 b)])
                 @ [HEX_digits ! unat (b AND 0x0F)]"

section \<open>Hex codec\<close>

definition HexToVal :: "byte \<Rightarrow> byte" where
  "HexToVal b =
    (if 0x30 \<le> b \<and> b \<le> 0x39 then b - 0x30
     else if 0x41 \<le> b \<and> b \<le> 0x46 then (b - 0x41) + 10
     else if 0x61 \<le> b \<and> b \<le> 0x66 then (b - 0x61) + 10
     else 0)"

definition PrintByteChars :: "byte \<Rightarrow> string" where
  "PrintByteChars pByte =
    [hex ! unat (drop_bit 4 (pByte AND 0xF0)), hex ! unat (pByte AND 0x0F)]"

definition PrintByte :: "byte \<Rightarrow> state \<Rightarrow> state" where
  "PrintByte pByte s = Serial_print (PrintByteChars pByte) s"

section \<open>Pins and the EEPROM\<close>

text \<open>
  \<open>digitalWrite\<close>, \<open>digitalRead\<close> and \<open>pinMode\<close> belong to the Arduino core, and the
  EEPROM is a separate chip; neither is part of the sketch. They are modelled as a
  parallel memory with 15 address lines and 8 data lines behind the three control lines
  (the AT28C256 that the pin names describe):
  \<^item> the addressed cell is the binary number on the address lines;
  \<^item> while nCE and nOE are low and nWE is high, the chip drives the data lines with the
    addressed cell;
  \<^item> while nCE and nWE are low and nOE is high, a write pulse is in progress; when a
    pulse ends, the byte on the data lines is stored in the addressed cell.
  Software data protection and the chip's internal write timing are not modelled, and
  \<open>delayMicroseconds\<close> takes no part in the model.
\<close>

definition addr_pins :: "nat list" where
  "addr_pins = [kPin_Addr0, kPin_Addr1, kPin_Addr2, kPin_Addr3, kPin_Addr4, kPin_Addr5,
     kPin_Addr6, kPin_Addr7, kPin_Addr8, kPin_Addr9, kPin_Addr10, kPin_Addr11,
     kPin_Addr12, kPin_Addr13, kPin_Addr14]"

definition data_pins :: "nat list" where
  "data_pins = [kPin_Data0, kPin_Data1, kPin_Data2, kPin_Data3, kPin_Data4, kPin_Data5,
     kPin_Data6, kPin_Data7]"

definition addr_lines :: "state \<Rightarrow> nat" where
  "addr_lines s = horner_sum of_bool 2 (map (level s) addr_pins)"

definition data_lines :: "state \<Rightarrow> byte" where
  "data_lines s = horner_sum of_bool 2 (map (level s) data_pins)"

definition chip_drives :: "state \<Rightarrow> bool" where
  "chip_drives s = (\<not> level s kPin_nCE \<and> \<not> level s kPin_nOE \<and> level s kPin_nWE)"

definition write_pulse :: "state \<Rightarrow> bool" where
  "write_pulse s = (\<not> level s kPin_nCE \<and> \<not> level s kPin_nWE \<and> level s kPin_nOE)"

definition pinMode :: "nat \<Rightarrow> bool \<Rightarrow> state \<Rightarrow> state" where
  "pinMode pin m s = s\<lparr>mode := (mode s)(pin := m)\<rparr>"

definition digitalWrite :: "nat \<Rightarrow> bool \<Rightarrow> state \<Rightarrow> state" where
  "digitalWrite pin v s =
    (let s' = s\<lparr>level := (level s)(pin := v)\<rparr>
     in if write_pulse s \<and> \<not> write_pulse s'
        then s'\<lparr>chip := (chip s)(addr_lines s := data_lines s)\<rparr>
        else s')"

fun data_bit :: "nat list \<Rightarrow> nat \<Rightarrow> nat option" where
  "data_bit [] pin = None"
| "data_bit (p # ps) pin =
    (if pin = p then Some 0 else map_option Suc (data_bit ps pin))"

definition digitalRead :: "nat \<Rightarrow> state \<Rightarrow> bool" where
  "digitalRead pin s =
    (case data_bit data_pins pin of
       Some k \<Rightarrow> if chip_drives s \<and> mode s pin = INPUT
                 then bit (chip s (addr_lines s)) k
                 else level s pin
     | None \<Rightarrow> level s pin)"

section \<open>Bus primitives\<close>

definition SetDataLinesAsInputs :: "state \<Rightarrow> state" where
  "SetDataLinesAsInputs s =
    (let s = pinMode kPin_Data0 INPUT s;
         s = pinMode kPin_Data1 INPUT s;
         s = pinMode kPin_Data2 INPUT s;
         s = pinMode kPin_Data3 INPUT s;
         s = pinMode kPin_Data4 INPUT s;
         s = pinMode kPin_Data5 INPUT s;
         s = pinMode kPin_Data6 INPUT s;
         s = pinMode kPin_Data7 INPUT s
     in s)"

definition SetDataLinesAsOutputs :: "state \<Rightarrow> state" where
  "SetDataLinesAsOutputs s =
    (let s = pinMode kPin_Data0 OUTPUT s;
         s = pinMode kPin_Data1 OUTPUT s;
         s = pinMode kPin_Data2 OUTPUT s;
         s = pinMode kPin_Data3 OUTPUT s;
         s = pinMode kPin_Data4 OUTPUT s;
         s = pinMode kPin_Data5 OUTPUT s;
         s = pinMode kPin_Data6 OUTPUT s;
         s = pinMode kPin_Data7 OUTPUT s
     in s)"

definition SetAddress :: "int16 \<Rightarrow> state \<Rightarrow> state" where
  "SetAddress a s =
    (let s = digitalWrite kPin_Addr0 (a AND 1 \<noteq> 0) s;
         s = digitalWrite kPin_Addr1 (a AND 2 \<noteq> 0) s;
         s = digitalWrite kPin_Addr2 (a AND 4 \<noteq> 0) s;
         s = digitalWrite kPin_Addr3 (a AND 8 \<noteq> 0) s;
         s = digitalWrite kPin_Addr4 (a AND 16 \<noteq> 0) s;
         s = digitalWrite kPin_Addr5 (a AND 32 \<noteq> 0) s;
         s = digitalWrite kPin_Addr6 (a AND 64 \<noteq> 0) s;
         s = digitalWrite kPin_Addr7 (a AND 128 \<noteq> 0) s;
         s = digitalWrite kPin_Addr8 (a AND 256 \<noteq> 0) s;
         s = digitalWrite kPin_Addr9 (a AND 512 \<noteq> 0) s;
         s = digitalWrite kPin_Addr10 (a AND 1024 \<noteq> 0) s;
         s = digitalWrite kPin_Addr11 (a AND 2048 \<noteq> 0) s;
         s = digitalWrite kPin_Addr12 (a AND 4096 \<noteq> 0) s;
         s = digitalWrite kPin_Addr13 (a AND 8192 \<noteq> 0) s;
         s = digitalWrite kPin_Addr14 (a AND 16384 \<noteq> 0) s
     in s)"

definition SetData :: "byte \<Rightarrow> state \<Rightarrow> state" where
  "SetData b s =
    (let s = digitalWrite kPin_Data0 (b AND 1 \<noteq> 0) s;
         s = digitalWrite kPin_Data1 (b AND 2 \<noteq> 0) s;
         s = digitalWrite kPin_Data2 (b AND 4 \<noteq> 0) s;
         s = digitalWrite kPin_Data3 (b AND 8 \<noteq> 0) s;
         s = digitalWrite kPin_Data4 (b AND 16 \<noteq> 0) s;
         s = digitalWrite kPin_Data5 (b AND 32 \<noteq> 0) s;
         s = digitalWrite kPin_Data6 (b AND 64 \<noteq> 0) s;
         s = digitalWrite kPin_Data7 (b AND 128 \<noteq> 0) s
     in s)"

definition ReadData :: "state \<Rightarrow> byte" where
  "ReadData s =
    (let b = 0;
         b = (if digitalRead kPin_Data0 s = HIGH then b OR 1 else b);
         b = (if digitalRead kPin_Data1 s = HIGH then b OR 2 else b);
         b = (if digitalRead kPin_Data2 s = HIGH then b OR 4 else b);
         b = (if digitalRead kPin_Data3 s = HIGH then b OR 8 else b);
         b = (if digitalRead kPin_Data4 s = HIGH then b OR 16 else b);
         b = (if digitalRead kPin_Data5 s = HIGH then b OR 32 else b);
         b = (if digitalRead kPin_Data6 s = HIGH then b OR 64 else b);
         b = (if digitalRead kPin_Data7 s = HIGH then b OR 128 else b)
     in b)"

text \<open>\<open>ReadByteFrom\<close> returns the byte and the state it leaves the pins in.\<close>

definition ReadByteFrom :: "int16 \<Rightarrow> state \<Rightarrow> byte \<times> state" where
  "ReadByteFrom addr s =
    (let s = SetAddress addr s;
         s = digitalWrite kPin_nCE LOW s;
         b = ReadData s;
         s = digitalWrite kPin_nCE HIGH s
     in (b, s))"

definition WriteByteTo :: "int16 \<Rightarrow> byte \<Rightarrow> state \<Rightarrow> state" where
  "WriteByteTo addr b s =
    (let s = SetAddress addr s;
         s = SetData b s;
         s = digitalWrite kPin_nCE LOW s;
         s = digitalWrite kPin_nWE LOW s;
         s = digitalWrite kPin_nWE HIGH s;
         s = digitalWrite kPin_nCE HIGH s
     in s)"

section \<open>Chip operations\<close>

function ReadEEPROMIntoBuffer_loop :: "int16 \<Rightarrow> nat \<Rightarrow> nat \<Rightarrow> state \<Rightarrow> state" where
  "ReadEEPROMIntoBuffer_loop addr sz x s =
    (if x < sz
     then (let (b, s) = ReadByteFrom (addr + of_nat x) s;
               s = buffer_store x b s
           in ReadEEPROMIntoBuffer_loop addr sz (x + 1) s)
     else s)"
  by pat_completeness auto
termination
  by (relation "measure (\<lambda>(addr, sz, x, s). sz - x)") auto

definition ReadEEPROMIntoBuffer :: "int16 \<Rightarrow> nat \<Rightarrow> state \<Rightarrow> state" where
  "ReadEEPROMIntoBuffer addr sz s =
    (let s = digitalWrite kPin_LED_Grn HIGH s;
         s = digitalWrite kPin_nWE HIGH s;
         s = SetDataLinesAsInputs s;
         s = digitalWrite kPin_nOE LOW s;
         s = ReadEEPROMIntoBuffer_loop addr sz 0 s;
         s = digitalWrite kPin_nOE HIGH s;
         s = digitalWrite kPin_LED_Grn LOW s
     in s)"

function WriteBufferToEEPROM_loop :: "int16 \<Rightarrow> nat \<Rightarrow> nat \<Rightarrow> state \<Rightarrow> state" where
  "WriteBufferToEEPROM_loop addr sz x s =
    (if x < sz
     then (let s = buffer_check x s;
               s = WriteByteTo (addr + of_nat x) (buffer s x) s
           in WriteBufferToEEPROM_loop addr sz (x + 1) s)
     else s)"
  by pat_completeness auto
termination
  by (relation "measure (\<lambda>(addr, sz, x, s). sz - x)") auto

definition WriteBufferToEEPROM :: "int16 \<Rightarrow> nat \<Rightarrow> state \<Rightarrow> state" where
  "WriteBufferToEEPROM addr sz s =
    (let s = digitalWrite kPin_LED_Red HIGH s;
         s = digitalWrite kPin_nOE HIGH s;
         s = digitalWrite kPin_nWE HIGH s;
         s = SetDataLinesAsOutputs s;
         s = WriteBufferToEEPROM_loop addr sz 0 s;
         s = digitalWrite kPin_LED_Red LOW s
     in s)"

definition SetSDPState :: "bool \<Rightarrow> state \<Rightarrow> state" where
  "SetSDPState bWriteProtect s =
    (let s = digitalWrite kPin_LED_Red HIGH s;
         s = digitalWrite kPin_nWE HIGH s;
         s = digitalWrite kPin_nOE LOW s;
         s = SetDataLinesAsInputs s;
         (bytezero, s) = ReadByteFrom 0 s;
         s = digitalWrite kPin_nOE HIGH s;
         s = digitalWrite kPin_nCE HIGH s;
         s = SetDataLinesAsOutputs s;
         s = (if bWriteProtect
              then (let s = WriteByteTo 0x5555 0xAA s;
                        s = WriteByteTo 0x2AAA 0x55 s;
                        s = WriteByteTo 0x5555 0xA0 s
                    in s)
              else (let s = WriteByteTo 0x5555 0xAA s;
                        s = WriteByteTo 0x2AAA 0x55 s;
                        s = WriteByteTo 0x5555 0x80 s;
                        s = WriteByteTo 0x5555 0xAA s;
                        s = WriteByteTo 0x2AAA 0x55 s;
                        s = WriteByteTo 0x5555 0x20 s
                    in s));
         s = WriteByteTo 0x0000 bytezero s;
         s = digitalWrite kPin_nCE LOW s;
         s = digitalWrite kPin_LED_Red LOW s;
         s = Serial_print ''OK SDP '' s;
         s = (if bWriteProtect then Serial_println ''enabled'' s
              else Serial_println ''disabled'' s)
     in s)"

definition BlankEEPROM :: "state \<Rightarrow> state" where
  "BlankEEPROM s =
    (let s = digitalWrite kPin_LED_Red HIGH s;
         s = digitalWrite kPin_nWE HIGH s;
         s = digitalWrite kPin_nOE LOW s;
         s = SetDataLinesAsInputs s;
         s = digitalWrite kPin_nOE HIGH s;
         s = digitalWrite kPin_nCE HIGH s;
         s = SetDataLinesAsOutputs s;
         s = WriteByteTo 0x5555 0xAA s;
         s = WriteByteTo 0x2AAA 0x55 s;
         s = WriteByteTo 0x5555 0x80 s;
         s = WriteByteTo 0x5555 0xAA s;
         s = WriteByteTo 0x2AAA 0x55 s;
         s = WriteByteTo 0x5555 0x10 s;
         s = digitalWrite kPin_nCE LOW s;
         s = digitalWrite kPin_LED_Red LOW s;
         s = Serial_println ''OK'' s
     in s)"

section \<open>Checksums and printing of the Transfer Buffer\<close>

function PrintBuffer_loop :: "nat \<Rightarrow> nat \<Rightarrow> byte \<Rightarrow> state \<Rightarrow> byte \<times> state" where
  "PrintBuffer_loop sz x chk s =
    (if x < sz
     then (let s = buffer_check x s;
               s = Serial_print [hex ! unat (drop_bit 4 (buffer s x AND 0xF0))] s;
               s = Serial_print [hex ! unat (buffer s x AND 0x0F)] s;
               chk = chk XOR buffer s x
           in PrintBuffer_loop sz (x + 1) chk s)
     else (chk, s))"
  by pat_completeness auto
termination
  by (relation "measure (\<lambda>(sz, x, chk, s). sz - x)") auto

definition PrintBuffer :: "nat \<Rightarrow> state \<Rightarrow> state" where
  "PrintBuffer sz s =
    (let (chk, s) = PrintBuffer_loop sz 0 0 s;
         s = Serial_print '','' s;
         s = Serial_print [hex ! unat (drop_bit 4 (chk AND 0xF0))] s;
         s = Serial_print [hex ! unat (chk AND 0x0F)] s;
         s = Serial_println [] s
     in s)"

function CalcBufferChecksum_loop :: "nat \<Rightarrow> nat \<Rightarrow> byte \<Rightarrow> state \<Rightarrow> byte \<times> state" where
  "CalcBufferChecksum_loop sz x chk s =
    (if x < sz
     then (let s = buffer_check x s;
               chk = chk XOR buffer s x
           in CalcBufferChecksum_loop sz (x + 1) chk s)
     else (chk, s))"
  by pat_completeness auto
termination
  by (relation "measure (\<lambda>(sz, x, chk, s). sz - x)") auto

definition CalcBufferChecksum :: "nat \<Rightarrow> state \<Rightarrow> byte \<times> state" where
  "CalcBufferChecksum sz s = CalcBufferChecksum_loop sz 0 0 s"

section \<open>Command handlers\<close>

text \<open>
  \<open>ReadEEPROM\<close> and \<open>PrepareBuffer\<close> parse the address with the same loop, which stops
  at the end of the line or at \<open>x = 5\<close>. The loop returns \<open>x\<close> with the address, so
  that the number of characters it consumed can be stated. \<open>PrepareBuffer\<close> runs it on
  the global \<open>baseAddr\<close>, which it sets to 0 first.
\<close>

function addr_loop4 :: "state \<Rightarrow> nat \<Rightarrow> int16 \<Rightarrow> nat \<times> int16" where
  "addr_loop4 s x addr =
    (if x < 5 \<and> g_at s x \<noteq> 0
     then (let addr = push_bit 4 addr;
               addr = addr OR ucast (HexToVal (g_at s x))
           in addr_loop4 s (x + 1) addr)
     else (x, addr))"
  by pat_completeness auto
termination
  by (relation "measure (\<lambda>(s, x, addr). 5 - x)") auto

text \<open>
  \<open>WriteEEPROM\<close> and \<open>FillBuffer\<close> parse the address with the same loop, which stops
  at a colon or at the end of the line.
\<close>

function addr_loop_colon :: "state \<Rightarrow> nat \<Rightarrow> int16 \<Rightarrow> nat \<times> int16" where
  "addr_loop_colon s x addr =
    (if g_at s x \<noteq> 0x3A \<and> g_at s x \<noteq> 0
     then (let addr = push_bit 4 addr;
               addr = addr OR ucast (HexToVal (g_at s x))
           in addr_loop_colon s (x + 1) addr)
     else (x, addr))"
  by pat_completeness auto
termination
  by (relation "measure (\<lambda>(s, x, addr). length (g_cmd s) - x)")
     (auto simp: g_at_def split: if_splits)

text \<open>
  The loop that decodes the payload into the Transfer Buffer is the same text in
  \<open>WriteEEPROM\<close> and \<open>FillBuffer\<close> (the local \<open>c\<close> is \<open>uint8_t\<close> in one and \<open>int8_t\<close>
  in the other; the byte stored is the same). It returns \<open>x\<close>, \<open>iBufferUsed\<close> and the
  state.
\<close>

function data_loop :: "nat \<Rightarrow> nat \<Rightarrow> state \<Rightarrow> nat \<times> nat \<times> state" where
  "data_loop x iBufferUsed s =
    (if g_at s x \<noteq> 0 \<and> g_at s (x + 1) \<noteq> 0 \<and> iBufferUsed < kMaxBufferSize
        \<and> g_at s x \<noteq> 0x2C
     then (let c = push_bit 4 (HexToVal (g_at s x)) OR HexToVal (g_at s (x + 1));
               s = buffer_store iBufferUsed c s
           in data_loop (x + 2) (iBufferUsed + 1) s)
     else (x, iBufferUsed, s))"
  by pat_completeness auto
termination
  by (relation "measure (\<lambda>(x, iBufferUsed, s). kMaxBufferSize - iBufferUsed)") auto

text \<open>
  The optional checksum, the same text in both handlers. \<open>Inl\<close> is the early return
  after the mismatch reply, \<open>Inr\<close> goes on with the handler.
\<close>

definition check_checksum :: "nat \<Rightarrow> nat \<Rightarrow> state \<Rightarrow> state + state" where
  "check_checksum x iBufferUsed s =
    (if g_at s x = 0x2C \<and> g_at s (x + 1) \<noteq> 0 \<and> g_at s (x + 2) \<noteq> 0
     then (let checksum = push_bit 4 (HexToVal (g_at s (x + 1))) OR HexToVal (g_at s (x + 2));
               (our_checksum, s) = CalcBufferChecksum iBufferUsed s
           in if our_checksum \<noteq> checksum
              then (let s = Serial_print ''ERR '' s;
                        s = Serial_print (print_HEX checksum) s;
                        s = Serial_print '' '' s;
                        s = Serial_print (print_HEX our_checksum) s;
                        s = Serial_println [] s
                    in Inl s)
              else Inr s)
     else Inr s)"

definition ReadEEPROM :: "state \<Rightarrow> state" where
  "ReadEEPROM s =
    (if g_at s 1 = 0 then Serial_println ''ERR'' s
     else
      (let (x, addr) = addr_loop4 s 1 0;
           s = digitalWrite kPin_nWE HIGH s;
           s = SetDataLinesAsInputs s;
           s = digitalWrite kPin_nOE LOW s;
           s = ReadEEPROMIntoBuffer addr kMaxBufferSize s;
           s = Serial_print [hex ! unat (drop_bit 12 (addr AND 0xF000))] s;
           s = Serial_print [hex ! unat (drop_bit 8 (addr AND 0x0F00))] s;
           s = Serial_print [hex ! unat (drop_bit 4 (addr AND 0x00F0))] s;
           s = Serial_print [hex ! unat (addr AND 0x000F)] s;
           s = Serial_print '':'' s;
           s = PrintBuffer kMaxBufferSize s;
           s = Serial_println ''OK'' s;
           s = digitalWrite kPin_nOE HIGH s
       in s))"

text \<open>
  In \<open>WriteEEPROM\<close> the last test, \<open>iBufferUsed > -1\<close>, compares the \<open>uint8_t\<close> after
  its promotion to \<open>int\<close>.
\<close>

definition WriteEEPROM :: "state \<Rightarrow> state" where
  "WriteEEPROM s =
    (if g_at s 1 = 0 then Serial_println ''ERR'' s
     else
      (let (x, addr) = addr_loop_colon s 1 0
       in if g_at s x \<noteq> 0x3A then Serial_println ''ERR'' s
          else
           (let x = x + 1;
                (x, iBufferUsed, s) = data_loop x 0 s
            in case check_checksum x iBufferUsed s of
                 Inl s \<Rightarrow> s
               | Inr s \<Rightarrow>
                  (let s = (if iBufferUsed > 0 then WriteBufferToEEPROM addr iBufferUsed s
                            else s);
                       s = (if int iBufferUsed > - 1 then Serial_println ''OK'' s else s)
                   in s))))"

function PrepareBuffer_fill :: "nat \<Rightarrow> state \<Rightarrow> state" where
  "PrepareBuffer_fill x s =
    (if x < kPageSize
     then PrepareBuffer_fill (x + 1) (pageWr_store kPageSize 0xFF s)
     else s)"
  by pat_completeness auto
termination
  by (relation "measure (\<lambda>(x, s). kPageSize - x)") auto

definition PrepareBuffer :: "state \<Rightarrow> state" where
  "PrepareBuffer s =
    (if g_at s 1 = 0 then Serial_println ''ERR'' s
     else
      (let s = s\<lparr>baseAddr := 0\<rparr>;
           (x, addr) = addr_loop4 s 1 (baseAddr s);
           s = s\<lparr>baseAddr := addr\<rparr>;
           s = PrepareBuffer_fill 0 s;
           s = Serial_println ''OK'' s
       in s))"

text \<open>
  The copy loop of \<open>FillBuffer\<close> counts \<open>iBufferUsed\<close> down to 0; the handler
  increments \<open>iBufferUsed\<close> before it enters the loop.
\<close>

fun FillBuffer_copy :: "int16 \<Rightarrow> nat \<Rightarrow> state \<Rightarrow> state" where
  "FillBuffer_copy addr 0 s = s"
| "FillBuffer_copy addr (Suc iBufferUsed) s =
    (let s = buffer_check iBufferUsed s;
         s = pageWr_store (unat (addr AND 0x7F) + iBufferUsed) (buffer s iBufferUsed) s
     in FillBuffer_copy addr iBufferUsed s)"

definition FillBuffer :: "state \<Rightarrow> state" where
  "FillBuffer s =
    (if g_at s 1 = 0 then Serial_println ''ERR'' s
     else
      (let (x, addr) = addr_loop_colon s 1 0
       in if g_at s x \<noteq> 0x3A then Serial_println ''ERR'' s
          else
           (let x = x + 1;
                (x, iBufferUsed, s) = data_loop x 0 s
            in case check_checksum x iBufferUsed s of
                 Inl s \<Rightarrow> s
               | Inr s \<Rightarrow>
                  (let iBufferUsed = iBufferUsed + 1;
                       s = FillBuffer_copy addr iBufferUsed s;
                       s = Serial_println ''OK'' s
                   in s))))"

function ProgramBuffer_loop :: "nat \<Rightarrow> state \<Rightarrow> state" where
  "ProgramBuffer_loop x s =
    (if x < kPageSize
     then (let s = pageWr_check x s;
               s = WriteByteTo (baseAddr s + of_nat x) (pageWr s x) s
           in ProgramBuffer_loop (x + 1) s)
     else s)"
  by pat_completeness auto
termination
  by (relation "measure (\<lambda>(x, s). kPageSize - x)") auto

definition ProgramBuffer :: "state \<Rightarrow> state" where
  "ProgramBuffer s =
    (let s = digitalWrite kPin_LED_Red HIGH s;
         s = digitalWrite kPin_nOE HIGH s;
         s = digitalWrite kPin_nWE HIGH s;
         s = SetDataLinesAsOutputs s;
         s = ProgramBuffer_loop 0 s;
         s = digitalWrite kPin_LED_Red LOW s;
         s = Serial_println ''OK'' s
     in s)"

definition Help :: "state \<Rightarrow> state" where
  "Help s =
    (let s = Serial_println version_string s;
         s = Serial_println ''   R[hex address]                         - reads 16 bytes of data from the EEPROM'' s;
         s = Serial_println ''   W[hex address]:[data in two-char hex]  - writes up to 16 bytes of data to the EEPROM'' s;
         s = Serial_println ''   P                                      - set write-protection bit (SDS only, AFAIK)'' s;
         s = Serial_println ''   U                                      - clear write-protection bit (ditto)'' s;
         s = Serial_println ''   V                                      - prints the version string'' s;
         s = Serial_println ''   B                                      - blanks Silicon Storage Technology EEPROM'' s;
         s = Serial_println ''   N[hex address]                         - init buffer for EEPROM Page Write'' s;
         s = Serial_println ''   S[hex address]:[data in two-char hex]  - writes up to 16 bytes of data to the buffer'' s;
         s = Serial_println ''   T                                      - Writes buffer to EEPROM'' s;
         s = Serial_println ''   ?                                      - print this lines'' s;
         s = Serial_println [] s;
         s = Serial_println ''Any data read from the EEPROM will have a CRC checksum appended to it (separated by a comma).'' s;
         s = Serial_println ''If a string of data is sent with an optional checksum, then this will be checked'' s;
         s = Serial_println ''before anything is written.'' s
     in s)"

section \<open>The command loop\<close>

text \<open>
  \<open>ReadString\<close> waits for bytes from the serial port until a line feed (10) arrives and
  stores those above 31. Its argument \<open>line\<close> is the bytes received before the line
  feed. The sketch does not check the index of its stores: the model is for lines with
  at most 79 bytes above 31, which fit into the 80 bytes of \<open>g_cmd\<close> with the
  terminating zero. A longer line is stored past the end of \<open>g_cmd\<close>; the model does
  not say what it overwrites.
\<close>

definition ReadString :: "byte list \<Rightarrow> state \<Rightarrow> state" where
  "ReadString line s = s\<lparr>g_cmd := filter (\<lambda>c. c > 31) line\<rparr>"

definition dispatch :: "state \<Rightarrow> state" where
  "dispatch s =
    (let c = g_at s 0
     in if c = 0x56 then Serial_println version_string s
        else if c = 0x50 then SetSDPState True s
        else if c = 0x55 then SetSDPState False s
        else if c = 0x52 then ReadEEPROM s
        else if c = 0x57 then WriteEEPROM s
        else if c = 0x3F then Help s
        else if c = 0x42 then BlankEEPROM s
        else if c = 0x4E then PrepareBuffer s
        else if c = 0x53 then FillBuffer s
        else if c = 0x54 then ProgramBuffer s
        else if c = 0 then s
        else Serial_println ''ERR Unrecognised command'' s)"

text \<open>One turn of \<open>loop\<close>: a line is read and its command is run.\<close>

definition loop_turn :: "byte list \<Rightarrow> state \<Rightarrow> state" where
  "loop_turn line s =
    (let s = digitalWrite kPin_WaitingForInput HIGH s;
         s = ReadString line s;
         s = digitalWrite kPin_WaitingForInput LOW s
     in dispatch s)"

definition setup_sketch :: "state \<Rightarrow> state" where
  "setup_sketch s =
    (let s = pinMode kPin_WaitingForInput OUTPUT s;
         s = digitalWrite kPin_WaitingForInput HIGH s;
         s = pinMode kPin_LED_Red OUTPUT s;
         s = digitalWrite kPin_LED_Red LOW s;
         s = pinMode kPin_LED_Grn OUTPUT s;
         s = digitalWrite kPin_LED_Grn LOW s;
         s = pinMode kPin_Addr0 OUTPUT s;
         s = pinMode kPin_Addr1 OUTPUT s;
         s = pinMode kPin_Addr2 OUTPUT s;
         s = pinMode kPin_Addr3 OUTPUT s;
         s = pinMode kPin_Addr4 OUTPUT s;
         s = pinMode kPin_Addr5 OUTPUT s;
         s = pinMode kPin_Addr6 OUTPUT s;
         s = pinMode kPin_Addr7 OUTPUT s;
         s = pinMode kPin_Addr8 OUTPUT s;
         s = pinMode kPin_Addr9 OUTPUT s;
         s = pinMode kPin_Addr10 OUTPUT s;
         s = pinMode kPin_Addr11 OUTPUT s;
         s = pinMode kPin_Addr12 OUTPUT s;
         s = pinMode kPin_Addr13 OUTPUT s;
         s = pinMode kPin_Addr14 OUTPUT s;
         s = pinMode kPin_nCE OUTPUT s;
         s = digitalWrite kPin_nCE LOW s;
         s = pinMode kPin_nOE OUTPUT s;
         s = digitalWrite kPin_nOE HIGH s;
         s = pinMode kPin_nWE OUTPUT s;
         s = digitalWrite kPin_nWE HIGH s;
         s = SetDataLinesAsInputs s;
         s = SetAddress 0 s
     in s)"

text \<open>The bytes of a line typed at the host.\<close>

definition bytes_of :: "string \<Rightarrow> byte list" where
  "bytes_of str = map of_char str"

section \<open>Notions used in the statements\<close>

text \<open>The value of a string of hexadecimal digits, as the address loops accumulate it.\<close>

definition hex_value :: "byte list \<Rightarrow> int16" where
  "hex_value cs = foldl (\<lambda>addr c. push_bit 4 addr OR ucast (HexToVal c)) 0 cs"

text \<open>
  A state in which the command loop waits for a line: the pins as \<open>setup\<close> leaves
  them (data lines inputs, every other pin an output, nCE low, nOE and nWE high), the
  globals zero, nothing sent yet; \<open>c\<close> is the contents of the chip and \<open>line\<close> the
  command in \<open>g_cmd\<close>.
\<close>

definition ready_state :: "(nat \<Rightarrow> byte) \<Rightarrow> byte list \<Rightarrow> state" where
  "ready_state c line =
    \<lparr>level = (\<lambda>pin. pin = kPin_nOE \<or> pin = kPin_nWE),
     mode = (\<lambda>pin. pin \<notin> set data_pins),
     chip = c,
     g_cmd = line,
     buffer = (\<lambda>i. 0),
     pageWr = (\<lambda>i. 0),
     baseAddr = 0,
     serial = [],
     oob = []\<rparr>"

text \<open>The data lines are inputs of the microcontroller.\<close>

definition data_inputs :: "state \<Rightarrow> bool" where
  "data_inputs s = list_all (\<lambda>p. mode s p = INPUT) data_pins"
text \<open>
  The two lower-case hexadecimal digits of a byte and the four of an address, taken from
  the sketch's table \<open>hex\<close>; the XOR of a list of bytes; and the \<open>n\<close> cells of the chip
  that are read from the address \<open>addr\<close> on (the address lines carry the low 15 bits).
\<close>

definition hex2 :: "byte \<Rightarrow> string" where
  "hex2 b = [hex ! (unat b div 16), hex ! (unat b mod 16)]"

definition hex4 :: "int16 \<Rightarrow> string" where
  "hex4 a = [hex ! (unat a div 4096), hex ! (unat a div 256 mod 16),
             hex ! (unat a div 16 mod 16), hex ! (unat a mod 16)]"

definition xor_sum :: "byte list \<Rightarrow> byte" where
  "xor_sum bs = foldl (XOR) 0 bs"

definition chip_bytes :: "state \<Rightarrow> int16 \<Rightarrow> nat \<Rightarrow> byte list" where
  "chip_bytes s addr n = map (\<lambda>x. chip s (unat (addr + of_nat x) mod 0x8000)) [0..<n]"
text \<open>
  The payload of a \<open>W\<close> or \<open>S\<close> line as the host encodes it: two hexadecimal digits for
  each byte, here the lower-case digits of the table \<open>hex\<close>.
\<close>

definition hex_encode :: "byte list \<Rightarrow> byte list" where
  "hex_encode bs = bytes_of (concat (map hex2 bs))"

text \<open>
  A \<open>W\<close> line with the address characters \<open>a\<close>, the payload \<open>bs\<close> and the stated
  checksum \<open>cks\<close>.
\<close>

definition W_line :: "byte list \<Rightarrow> byte list \<Rightarrow> byte \<Rightarrow> byte list" where
  "W_line a bs cks = 0x57 # a @ 0x3A # hex_encode bs @ 0x2C # hex_encode [cks]"

text \<open>
  The bytes that a payload stands for: each pair of characters gives one byte, the first
  character its high four bits and the second its low four bits, with the value that
  \<open>HexToVal\<close> gives each character (digits in upper or lower case; 0 for any other
  character). A last character without a partner gives nothing.
\<close>

fun hex_decode :: "byte list \<Rightarrow> byte list" where
  "hex_decode (c # d # cs) = (push_bit 4 (HexToVal c) OR HexToVal d) # hex_decode cs"
| "hex_decode [c] = []"
| "hex_decode [] = []"

section \<open>The bus primitives\<close>

lemmas pin_defs =
  kPin_Addr0_def kPin_Addr1_def kPin_Addr2_def kPin_Addr3_def kPin_Addr4_def
  kPin_Addr5_def kPin_Addr6_def kPin_Addr7_def kPin_Addr8_def kPin_Addr9_def
  kPin_Addr10_def kPin_Addr11_def kPin_Addr12_def kPin_Addr13_def kPin_Addr14_def
  kPin_Data0_def kPin_Data1_def kPin_Data2_def kPin_Data3_def kPin_Data4_def
  kPin_Data5_def kPin_Data6_def kPin_Data7_def
  kPin_nWE_def kPin_nOE_def kPin_nCE_def
  kPin_WaitingForInput_def kPin_LED_Red_def kPin_LED_Grn_def

lemma digitalWrite_soft [simp]:
  "mode (digitalWrite p v s) = mode s \<and> g_cmd (digitalWrite p v s) = g_cmd s \<and>
   buffer (digitalWrite p v s) = buffer s \<and> pageWr (digitalWrite p v s) = pageWr s \<and>
   baseAddr (digitalWrite p v s) = baseAddr s \<and> serial (digitalWrite p v s) = serial s \<and>
   oob (digitalWrite p v s) = oob s"
  by (simp add: digitalWrite_def Let_def)

lemma level_digitalWrite [simp]:
  "level (digitalWrite p v s) = (level s)(p := v)"
  by (simp add: digitalWrite_def Let_def)

lemma chip_digitalWrite_idle [simp]:
  "level s kPin_nWE \<Longrightarrow> chip (digitalWrite p v s) = chip s"
  by (simp add: digitalWrite_def Let_def write_pulse_def)

lemma digitalWrite_plain:
  "p \<noteq> kPin_nCE \<Longrightarrow> p \<noteq> kPin_nWE \<Longrightarrow> p \<noteq> kPin_nOE \<Longrightarrow>
   digitalWrite p v s = s\<lparr>level := (level s)(p := v)\<rparr>"
  by (auto simp add: digitalWrite_def Let_def write_pulse_def)

lemma pinMode_simps [simp]:
  "mode (pinMode p m s) = (mode s)(p := m)"
  "level (pinMode p m s) = level s" "chip (pinMode p m s) = chip s"
  "g_cmd (pinMode p m s) = g_cmd s" "buffer (pinMode p m s) = buffer s"
  "pageWr (pinMode p m s) = pageWr s" "baseAddr (pinMode p m s) = baseAddr s"
  "serial (pinMode p m s) = serial s" "oob (pinMode p m s) = oob s"
  by (simp_all add: pinMode_def)

lemma and_bit_16: "(a AND 2 ^ n \<noteq> 0) = bit a n" for a :: int16
  by (simp add: and_exp_eq_0_iff_not_bit)

lemma and_bit_8: "(a AND 2 ^ n \<noteq> 0) = bit a n" for a :: byte
  by (simp add: and_exp_eq_0_iff_not_bit)

lemma SetAddress_eq:
  "SetAddress a s = s\<lparr>level := (level s)
     (kPin_Addr0 := bit a 0, kPin_Addr1 := bit a 1, kPin_Addr2 := bit a 2,
      kPin_Addr3 := bit a 3, kPin_Addr4 := bit a 4, kPin_Addr5 := bit a 5,
      kPin_Addr6 := bit a 6, kPin_Addr7 := bit a 7, kPin_Addr8 := bit a 8,
      kPin_Addr9 := bit a 9, kPin_Addr10 := bit a 10, kPin_Addr11 := bit a 11,
      kPin_Addr12 := bit a 12, kPin_Addr13 := bit a 13, kPin_Addr14 := bit a 14)\<rparr>"
proof -
  have b: "(a AND 1 \<noteq> 0) = bit a 0" "(a AND 2 \<noteq> 0) = bit a 1" "(a AND 4 \<noteq> 0) = bit a 2"
    "(a AND 8 \<noteq> 0) = bit a 3" "(a AND 16 \<noteq> 0) = bit a 4" "(a AND 32 \<noteq> 0) = bit a 5"
    "(a AND 64 \<noteq> 0) = bit a 6" "(a AND 128 \<noteq> 0) = bit a 7" "(a AND 256 \<noteq> 0) = bit a 8"
    "(a AND 512 \<noteq> 0) = bit a 9" "(a AND 1024 \<noteq> 0) = bit a 10"
    "(a AND 2048 \<noteq> 0) = bit a 11" "(a AND 4096 \<noteq> 0) = bit a 12"
    "(a AND 8192 \<noteq> 0) = bit a 13" "(a AND 16384 \<noteq> 0) = bit a 14"
    using and_bit_16 [of a 0] and_bit_16 [of a 1] and_bit_16 [of a 2] and_bit_16 [of a 3]
      and_bit_16 [of a 4] and_bit_16 [of a 5] and_bit_16 [of a 6] and_bit_16 [of a 7]
      and_bit_16 [of a 8] and_bit_16 [of a 9] and_bit_16 [of a 10] and_bit_16 [of a 11]
      and_bit_16 [of a 12] and_bit_16 [of a 13] and_bit_16 [of a 14]
    by simp_all
  show ?thesis
    unfolding SetAddress_def Let_def b
    apply (simp add: digitalWrite_plain pin_defs)
    done
qed


lemma upt_15: "[0..<15] = [0,1,2,3,4,5,6,7,8,9,10,11,12,13,14]"
  by code_simp

lemma upt_8: "[0..<8] = [0,1,2,3,4,5,6,7]"
  by code_simp

lemma addr_lines_SetAddress: "addr_lines (SetAddress a s) = unat a mod 32768"
proof -
  have "addr_lines (SetAddress a s) = horner_sum of_bool 2 (map (bit (unat a)) [0..<15])"
    unfolding SetAddress_eq addr_lines_def addr_pins_def upt_15
    by (simp add: pin_defs bit_unsigned_iff)
  also have "\<dots> = take_bit 15 (unat a)"
    by (rule horner_sum_bit_eq_take_bit)
  finally show ?thesis by (simp add: take_bit_eq_mod)
qed

lemma SetData_eq:
  "SetData b s = s\<lparr>level := (level s)
     (kPin_Data0 := bit b 0, kPin_Data1 := bit b 1, kPin_Data2 := bit b 2,
      kPin_Data3 := bit b 3, kPin_Data4 := bit b 4, kPin_Data5 := bit b 5,
      kPin_Data6 := bit b 6, kPin_Data7 := bit b 7)\<rparr>"
proof -
  have b: "(b AND 1 \<noteq> 0) = bit b 0" "(b AND 2 \<noteq> 0) = bit b 1" "(b AND 4 \<noteq> 0) = bit b 2"
    "(b AND 8 \<noteq> 0) = bit b 3" "(b AND 16 \<noteq> 0) = bit b 4" "(b AND 32 \<noteq> 0) = bit b 5"
    "(b AND 64 \<noteq> 0) = bit b 6" "(b AND 128 \<noteq> 0) = bit b 7"
    using and_bit_8 [of b 0] and_bit_8 [of b 1] and_bit_8 [of b 2] and_bit_8 [of b 3]
      and_bit_8 [of b 4] and_bit_8 [of b 5] and_bit_8 [of b 6] and_bit_8 [of b 7]
    by simp_all
  show ?thesis
    unfolding SetData_def Let_def b
    by (simp add: digitalWrite_plain pin_defs)
qed

lemma data_lines_SetData: "data_lines (SetData b s) = b"
proof -
  have "data_lines (SetData b s) = horner_sum of_bool 2 (map (bit b) [0..<8])"
    unfolding SetData_eq data_lines_def data_pins_def upt_8
    by (simp add: pin_defs)
  also have "\<dots> = take_bit 8 b"
    by (rule horner_sum_bit_eq_take_bit)
  finally show ?thesis by (simp add: take_bit_word_eq_self)
qed

lemma addr_lines_SetData: "addr_lines (SetData b s) = addr_lines s"
  unfolding SetData_eq addr_lines_def addr_pins_def
  by (simp add: pin_defs)

lemma data_lines_SetAddress: "data_lines (SetAddress a s) = data_lines s"
  unfolding SetAddress_eq data_lines_def data_pins_def
  by (simp add: pin_defs)

lemma SetAddress_control:
  "level (SetAddress a s) kPin_nCE = level s kPin_nCE"
  "level (SetAddress a s) kPin_nWE = level s kPin_nWE"
  "level (SetAddress a s) kPin_nOE = level s kPin_nOE"
  unfolding SetAddress_eq by (simp_all add: pin_defs)

lemma SetData_control:
  "level (SetData b s) kPin_nCE = level s kPin_nCE"
  "level (SetData b s) kPin_nWE = level s kPin_nWE"
  "level (SetData b s) kPin_nOE = level s kPin_nOE"
  unfolding SetData_eq by (simp_all add: pin_defs)

lemma SetAddress_soft [simp]:
  "mode (SetAddress a s) = mode s" "chip (SetAddress a s) = chip s"
  "g_cmd (SetAddress a s) = g_cmd s" "buffer (SetAddress a s) = buffer s"
  "pageWr (SetAddress a s) = pageWr s" "baseAddr (SetAddress a s) = baseAddr s"
  "serial (SetAddress a s) = serial s" "oob (SetAddress a s) = oob s"
  unfolding SetAddress_eq by simp_all

lemma SetData_soft [simp]:
  "mode (SetData a s) = mode s" "chip (SetData a s) = chip s"
  "g_cmd (SetData a s) = g_cmd s" "buffer (SetData a s) = buffer s"
  "pageWr (SetData a s) = pageWr s" "baseAddr (SetData a s) = baseAddr s"
  "serial (SetData a s) = serial s" "oob (SetData a s) = oob s"
  unfolding SetData_eq by simp_all

lemma bit_const_byte:
  "k < 8 \<Longrightarrow> bit (2 ^ k :: byte) n \<longleftrightarrow> n = k"
  by (auto simp add: bit_exp_iff)

lemma bit_consts:
  "bit (1::byte) n \<longleftrightarrow> n = 0" "bit (2::byte) n \<longleftrightarrow> n = 1"
  "bit (4::byte) n \<longleftrightarrow> n = 2" "bit (8::byte) n \<longleftrightarrow> n = 3"
  "bit (16::byte) n \<longleftrightarrow> n = 4" "bit (32::byte) n \<longleftrightarrow> n = 5"
  "bit (64::byte) n \<longleftrightarrow> n = 6" "bit (128::byte) n \<longleftrightarrow> n = 7"
proof -
  show "bit (1::byte) n \<longleftrightarrow> n = 0" using bit_const_byte [of 0 n] by simp
  show "bit (2::byte) n \<longleftrightarrow> n = 1" using bit_const_byte [of 1 n] by simp
  show "bit (4::byte) n \<longleftrightarrow> n = 2" using bit_const_byte [of 2 n] by simp
  show "bit (8::byte) n \<longleftrightarrow> n = 3" using bit_const_byte [of 3 n] by simp
  show "bit (16::byte) n \<longleftrightarrow> n = 4" using bit_const_byte [of 4 n] by simp
  show "bit (32::byte) n \<longleftrightarrow> n = 5" using bit_const_byte [of 5 n] by simp
  show "bit (64::byte) n \<longleftrightarrow> n = 6" using bit_const_byte [of 6 n] by simp
  show "bit (128::byte) n \<longleftrightarrow> n = 7" using bit_const_byte [of 7 n] by simp
qed

lemma or_if: "(if p then b OR k else b) = b OR (if p then k else 0)" for b :: byte
  by simp

lemma bit_sel: "bit (if p then k else 0) n = (p \<and> bit k n)" for k :: byte
  by simp

lemma byte_of_bits_aux:
  fixes c :: byte
  shows "((((((((0::byte) OR (if bit c 0 then 1 else 0)) OR (if bit c 1 then 2 else 0))
      OR (if bit c 2 then 4 else 0)) OR (if bit c 3 then 8 else 0))
      OR (if bit c 4 then 16 else 0)) OR (if bit c 5 then 32 else 0))
      OR (if bit c 6 then 64 else 0)) OR (if bit c 7 then 128 else 0) = c"
proof (rule bit_eqI)
  fix n :: nat
  have n: "n \<in> {0, 1, 2, 3, 4, 5, 6, 7}" if "n < 8"
    using that by auto
  show "bit (((((((((0::byte) OR (if bit c 0 then 1 else 0)) OR (if bit c 1 then 2 else 0))
      OR (if bit c 2 then 4 else 0)) OR (if bit c 3 then 8 else 0))
      OR (if bit c 4 then 16 else 0)) OR (if bit c 5 then 32 else 0))
      OR (if bit c 6 then 64 else 0)) OR (if bit c 7 then 128 else 0)) n = bit c n"
  proof (cases "n < 8")
    case True
    from n [OF this] show ?thesis
      unfolding bit_or_iff bit_sel bit_consts by auto
  next
    case False
    then have "\<not> bit c n" by (auto dest: bit_imp_le_length)
    with False show ?thesis
      unfolding bit_or_iff bit_sel bit_consts by simp
  qed
qed

lemma ReadData_driven:
  assumes "chip_drives s" and "data_inputs s"
  shows "ReadData s = chip s (addr_lines s)"
proof -
  have r: "digitalRead kPin_Data0 s = bit (chip s (addr_lines s)) 0"
    "digitalRead kPin_Data1 s = bit (chip s (addr_lines s)) 1"
    "digitalRead kPin_Data2 s = bit (chip s (addr_lines s)) 2"
    "digitalRead kPin_Data3 s = bit (chip s (addr_lines s)) 3"
    "digitalRead kPin_Data4 s = bit (chip s (addr_lines s)) 4"
    "digitalRead kPin_Data5 s = bit (chip s (addr_lines s)) 5"
    "digitalRead kPin_Data6 s = bit (chip s (addr_lines s)) 6"
    "digitalRead kPin_Data7 s = bit (chip s (addr_lines s)) 7"
    using assms by (simp_all add: digitalRead_def data_inputs_def data_pins_def pin_defs eval_nat_numeral)
  show ?thesis
    unfolding ReadData_def Let_def r eq_True or_if by (rule byte_of_bits_aux)
qed

lemma addr_lines_cong:
  "(\<And>p. p \<in> set addr_pins \<Longrightarrow> level s p = level s' p) \<Longrightarrow> addr_lines s = addr_lines s'"
  unfolding addr_lines_def by (rule arg_cong [where f = "horner_sum of_bool 2"]) simp

lemma data_lines_cong:
  "(\<And>p. p \<in> set data_pins \<Longrightarrow> level s p = level s' p) \<Longrightarrow> data_lines s = data_lines s'"
  unfolding data_lines_def by (rule arg_cong [where f = "horner_sum of_bool 2"]) simp

lemma addr_lines_digitalWrite:
  "p \<notin> set addr_pins \<Longrightarrow> addr_lines (digitalWrite p v s) = addr_lines s"
  by (rule addr_lines_cong) auto

lemma data_lines_digitalWrite:
  "p \<notin> set data_pins \<Longrightarrow> data_lines (digitalWrite p v s) = data_lines s"
  by (rule data_lines_cong) auto

lemma control_not_lines [simp]:
  "kPin_nCE \<notin> set addr_pins" "kPin_nWE \<notin> set addr_pins" "kPin_nOE \<notin> set addr_pins"
  "kPin_nCE \<notin> set data_pins" "kPin_nWE \<notin> set data_pins" "kPin_nOE \<notin> set data_pins"
  by (simp_all add: addr_pins_def data_pins_def pin_defs)

lemma control_distinct [simp]:
  "kPin_nCE \<noteq> kPin_nWE" "kPin_nCE \<noteq> kPin_nOE" "kPin_nWE \<noteq> kPin_nOE"
  "kPin_nWE \<noteq> kPin_nCE" "kPin_nOE \<noteq> kPin_nCE" "kPin_nOE \<noteq> kPin_nWE"
  by (simp_all add: pin_defs)

lemma ReadByteFrom_fst:
  assumes "level s kPin_nWE" and "\<not> level s kPin_nOE"
    and "data_inputs s"
  shows "fst (ReadByteFrom a s) = chip s (unat a mod 32768)"
proof -
  let ?s1 = "SetAddress a s"
  let ?s2 = "digitalWrite kPin_nCE LOW ?s1"
  have "chip_drives ?s2"
    using assms by (simp add: chip_drives_def SetAddress_control)
  moreover have "data_inputs ?s2"
    using assms by (simp add: data_inputs_def)
  ultimately have "ReadData ?s2 = chip ?s2 (addr_lines ?s2)"
    by (rule ReadData_driven)
  also have "chip ?s2 = chip s"
    using assms by (simp add: SetAddress_control)
  also have "addr_lines ?s2 = unat a mod 32768"
    by (simp add: addr_lines_digitalWrite addr_lines_SetAddress)
  finally show ?thesis
    by (simp add: ReadByteFrom_def Let_def)
qed



lemma ReadByteFrom_snd:
  "level s kPin_nWE \<Longrightarrow> chip (snd (ReadByteFrom a s)) = chip s"
  "level (snd (ReadByteFrom a s)) kPin_nWE = level s kPin_nWE"
  "level (snd (ReadByteFrom a s)) kPin_nOE = level s kPin_nOE"
  "level (snd (ReadByteFrom a s)) kPin_nCE = HIGH"
  "mode (snd (ReadByteFrom a s)) = mode s"
  "g_cmd (snd (ReadByteFrom a s)) = g_cmd s"
  "buffer (snd (ReadByteFrom a s)) = buffer s"
  "pageWr (snd (ReadByteFrom a s)) = pageWr s"
  "baseAddr (snd (ReadByteFrom a s)) = baseAddr s"
  "serial (snd (ReadByteFrom a s)) = serial s"
  "oob (snd (ReadByteFrom a s)) = oob s"
  by (simp_all add: ReadByteFrom_def Let_def SetAddress_control)


lemma WriteByteTo_chip:
  assumes "level s kPin_nWE"
  shows "chip (WriteByteTo a b s) =
    (if level s kPin_nOE then (chip s)(unat a mod 32768 := b) else chip s)"
proof -
  let ?s2 = "SetData b (SetAddress a s)"
  let ?s3 = "digitalWrite kPin_nCE LOW ?s2"
  let ?s4 = "digitalWrite kPin_nWE LOW ?s3"
  let ?s5 = "digitalWrite kPin_nWE HIGH ?s4"
  have nwe: "level ?s3 kPin_nWE"
    using assms by (simp add: SetData_control SetAddress_control)
  have c4: "chip ?s4 = chip s"
    using assms nwe by (simp add: SetData_control SetAddress_control)
  have p4: "write_pulse ?s4 = level s kPin_nOE"
    by (simp add: write_pulse_def SetData_control SetAddress_control)
  have a4: "addr_lines ?s4 = unat a mod 32768"
    by (simp add: addr_lines_digitalWrite addr_lines_SetData addr_lines_SetAddress)
  have d4: "data_lines ?s4 = b"
    by (simp add: data_lines_digitalWrite data_lines_SetData)
  have "chip ?s5 = (if level s kPin_nOE then (chip s)(unat a mod 32768 := b) else chip s)"
    unfolding digitalWrite_def [of kPin_nWE HIGH ?s4] Let_def p4 a4 d4
    by (simp add: write_pulse_def c4)
  moreover have "level ?s5 kPin_nWE" by simp
  ultimately show ?thesis
    by (simp add: WriteByteTo_def Let_def)
qed


lemma WriteByteTo_rest:
  "level (WriteByteTo a b s) kPin_nWE = HIGH"
  "level (WriteByteTo a b s) kPin_nOE = level s kPin_nOE"
  "level (WriteByteTo a b s) kPin_nCE = HIGH"
  "mode (WriteByteTo a b s) = mode s"
  "g_cmd (WriteByteTo a b s) = g_cmd s"
  "buffer (WriteByteTo a b s) = buffer s"
  "pageWr (WriteByteTo a b s) = pageWr s"
  "baseAddr (WriteByteTo a b s) = baseAddr s"
  "serial (WriteByteTo a b s) = serial s"
  "oob (WriteByteTo a b s) = oob s"
  by (simp_all add: WriteByteTo_def Let_def SetAddress_control SetData_control)

lemma SetAddress_low_bits:
  assumes "unat a mod 0x8000 = unat b mod 0x8000"
  shows "SetAddress a s = SetAddress b s"
proof -
  from assms have "take_bit 15 (unat a) = take_bit 15 (unat b)"
    by (simp add: take_bit_eq_mod)
  then have "bit (take_bit 15 (unat a)) n = bit (take_bit 15 (unat b)) n" for n
    by simp
  then have "n < 15 \<Longrightarrow> bit a n = bit b n" for n
    by (auto simp add: bit_take_bit_iff bit_unsigned_iff)
  then show ?thesis
    unfolding SetAddress_eq by simp
qed

section \<open>The parsing loops\<close>

declare addr_loop4.simps [simp del] addr_loop_colon.simps [simp del] data_loop.simps [simp del]

lemma g_at_nonzero: "g_at s x \<noteq> 0 \<Longrightarrow> x < length (g_cmd s) \<and> g_cmd s ! x = g_at s x"
  by (simp add: g_at_def split: if_splits)

lemma g_at_drop:
  "g_at s x \<noteq> 0 \<Longrightarrow> drop x (g_cmd s) = g_at s x # drop (Suc x) (g_cmd s)"
  using g_at_nonzero [of s x] Cons_nth_drop_Suc [of x "g_cmd s"] by simp

lemma g_at_end: "g_at s x = 0 \<Longrightarrow> takeWhile (\<lambda>c. c \<noteq> 0) (drop x (g_cmd s)) = []"
  by (cases "x < length (g_cmd s)") (auto simp: g_at_def hd_drop_conv_nth takeWhile_eq_Nil_iff)

lemma addr_loop4_eq:
  "x \<le> 5 \<Longrightarrow> addr_loop4 s x a =
    (x + length (take (5 - x) (takeWhile (\<lambda>c. c \<noteq> 0) (drop x (g_cmd s)))),
     foldl (\<lambda>addr c. push_bit 4 addr OR ucast (HexToVal c)) a
       (take (5 - x) (takeWhile (\<lambda>c. c \<noteq> 0) (drop x (g_cmd s)))))"
proof (induction s x a rule: addr_loop4.induct)
  case (1 s x addr)
  show ?case
  proof (cases "x < 5 \<and> g_at s x \<noteq> 0")
    case True
    then have d: "drop x (g_cmd s) = g_at s x # drop (Suc x) (g_cmd s)"
      by (simp add: g_at_drop)
    from True have t: "take (5 - x) (g_at s x # r) = g_at s x # take (5 - Suc x) r" for r
    proof -
      from True have "5 - x = Suc (5 - Suc x)" by arith
      then show ?thesis by (simp only: take_Suc_Cons)
    qed
    from True "1.IH" [OF True refl refl] show ?thesis
      by (subst addr_loop4.simps) (simp add: d t Let_def)
  next
    case False
    then show ?thesis
      using "1.prems" by (subst addr_loop4.simps) (auto simp: g_at_end)
  qed
qed

lemma addr_loop_colon_eq:
  "addr_loop_colon s x a =
    (x + length (takeWhile (\<lambda>c. c \<noteq> 0x3A \<and> c \<noteq> 0) (drop x (g_cmd s))),
     foldl (\<lambda>addr c. push_bit 4 addr OR ucast (HexToVal c)) a
       (takeWhile (\<lambda>c. c \<noteq> 0x3A \<and> c \<noteq> 0) (drop x (g_cmd s))))"
proof (induction s x a rule: addr_loop_colon.induct)
  case (1 s x addr)
  show ?case
  proof (cases "g_at s x \<noteq> 0x3A \<and> g_at s x \<noteq> 0")
    case True
    then have d: "drop x (g_cmd s) = g_at s x # drop (Suc x) (g_cmd s)"
      by (simp add: g_at_drop)
    from True "1.IH" [OF True refl refl] show ?thesis
      by (subst addr_loop_colon.simps) (simp add: d Let_def)
  next
    case False
    have "takeWhile (\<lambda>c. c \<noteq> 0x3A \<and> c \<noteq> 0) (drop x (g_cmd s)) = []"
    proof (cases "x < length (g_cmd s)")
      case True
      with False show ?thesis
        by (auto simp: g_at_def hd_drop_conv_nth takeWhile_eq_Nil_iff)
    next
      case False
      then show ?thesis by simp
    qed
    with False show ?thesis
      by (subst addr_loop_colon.simps) auto
  qed
qed

section \<open>Hexadecimal digits\<close>

lemma mask_consts16:
  "(0x000F :: int16) = push_bit 0 (mask 4)" "(0x00F0 :: int16) = push_bit 4 (mask 4)"
  "(0x0F00 :: int16) = push_bit 8 (mask 4)" "(0xF000 :: int16) = push_bit 12 (mask 4)"
  by (simp_all add: mask_eq_exp_minus_1 push_bit_eq_mult)

lemma mask_consts8:
  "(0x0F :: byte) = push_bit 0 (mask 4)" "(0xF0 :: byte) = push_bit 4 (mask 4)"
  by (simp_all add: mask_eq_exp_minus_1 push_bit_eq_mult)

lemma nibble_and: "drop_bit k (a AND push_bit k (mask 4)) = take_bit 4 (drop_bit k a)"
  for a :: "'a::len word"
  by (rule bit_eqI) (auto simp add: bit_simps dest: bit_imp_le_length)

lemma unat_nibble: "unat (drop_bit k (a AND push_bit k (mask 4))) = unat a div 2 ^ k mod 16"
  for a :: "'a::len word"
proof -
  have "unat (take_bit 4 (drop_bit k a)) = take_bit 4 (drop_bit k (unat a))"
    by (simp only: unsigned_take_bit_eq unat_drop_bit_eq)
  also have "\<dots> = unat a div 2 ^ k mod 16"
    by (simp add: take_bit_eq_mod drop_bit_eq_div)
  finally show ?thesis
    by (simp only: nibble_and)
qed

lemma nib16:
  "unat (drop_bit 12 (a AND 0xF000)) = unat a div 4096 mod 16"
  "unat (drop_bit 8 (a AND 0x0F00)) = unat a div 256 mod 16"
  "unat (drop_bit 4 (a AND 0x00F0)) = unat a div 16 mod 16"
  "unat (a AND 0x000F) = unat a mod 16" for a :: int16
  using unat_nibble [of 12 a] unat_nibble [of 8 a] unat_nibble [of 4 a] unat_nibble [of 0 a]
  unfolding mask_consts16 by simp_all

lemma nib8:
  "unat (drop_bit 4 (b AND 0xF0)) = unat b div 16 mod 16"
  "unat (b AND 0x0F) = unat b mod 16" for b :: byte
  using unat_nibble [of 4 b] unat_nibble [of 0 b]
  unfolding mask_consts8 by simp_all

lemma hex_char_cases:
  assumes "n < 16"
  shows "HexToVal (of_char (hex ! n)) = of_nat n \<and> (31 :: byte) < of_char (hex ! n)
    \<and> (of_char (hex ! n) :: byte) \<noteq> 0x2C \<and> (of_char (hex ! n) :: byte) \<noteq> 0x3A"
proof -
  have "list_all (\<lambda>n. HexToVal (of_char (hex ! n)) = of_nat n \<and> (31 :: byte) < of_char (hex ! n)
    \<and> (of_char (hex ! n) :: byte) \<noteq> 0x2C \<and> (of_char (hex ! n) :: byte) \<noteq> 0x3A) [0..<16]"
    by code_simp
  then show ?thesis
    using assms by (simp add: list_all_iff)
qed

lemma byte_nibbles: "push_bit 4 (of_nat (unat b div 16)) OR of_nat (unat b mod 16) = b"
  for b :: byte
proof -
  have "(of_nat (unat b div 16) :: byte) = drop_bit 4 b"
    by (simp add: drop_bit_eq_div unat_div [symmetric] word_arith_nat_div)
  moreover have "(of_nat (unat b mod 16) :: byte) = take_bit 4 b"
    by (simp add: take_bit_eq_mod word_arith_nat_mod)
  moreover have "push_bit 4 (drop_bit 4 b) OR take_bit 4 b = b"
    by (rule bit_eqI) (auto simp add: bit_simps)
  ultimately show ?thesis by simp
qed

lemma hex2_decode:
  "hex2 b = [c1, c2] \<Longrightarrow> push_bit 4 (HexToVal (of_char c1)) OR HexToVal (of_char c2) = b"
proof -
  assume "hex2 b = [c1, c2]"
  then have c: "c1 = hex ! (unat b div 16)" "c2 = hex ! (unat b mod 16)"
    by (simp_all add: hex2_def)
  have "unat b < 256" using unsigned_less [of b, where ?'a = nat] by simp
  then have "unat b div 16 < 16" "unat b mod 16 < 16" by simp_all
  then show ?thesis
    unfolding c using hex_char_cases [of "unat b div 16"] hex_char_cases [of "unat b mod 16"]
    by (simp add: byte_nibbles)
qed

section \<open>Chip operations and serial output\<close>

lemma SetDataLinesAsInputs_simps [simp]:
  "data_inputs (SetDataLinesAsInputs s)"
  "level (SetDataLinesAsInputs s) = level s" "chip (SetDataLinesAsInputs s) = chip s"
  "g_cmd (SetDataLinesAsInputs s) = g_cmd s" "buffer (SetDataLinesAsInputs s) = buffer s"
  "pageWr (SetDataLinesAsInputs s) = pageWr s" "baseAddr (SetDataLinesAsInputs s) = baseAddr s"
  "serial (SetDataLinesAsInputs s) = serial s" "oob (SetDataLinesAsInputs s) = oob s"
  by (simp_all add: SetDataLinesAsInputs_def data_inputs_def data_pins_def pin_defs)

lemma SetDataLinesAsOutputs_simps [simp]:
  "level (SetDataLinesAsOutputs s) = level s" "chip (SetDataLinesAsOutputs s) = chip s"
  "g_cmd (SetDataLinesAsOutputs s) = g_cmd s" "buffer (SetDataLinesAsOutputs s) = buffer s"
  "pageWr (SetDataLinesAsOutputs s) = pageWr s" "baseAddr (SetDataLinesAsOutputs s) = baseAddr s"
  "serial (SetDataLinesAsOutputs s) = serial s" "oob (SetDataLinesAsOutputs s) = oob s"
  by (simp_all add: SetDataLinesAsOutputs_def)

lemma data_inputs_level [simp]:
  "data_inputs (digitalWrite p v s) = data_inputs s"
  "data_inputs (SetAddress a s) = data_inputs s"
  by (simp_all add: data_inputs_def)

lemma Serial_simps [simp]:
  "serial (Serial_print str s) = serial s @ str"
  "serial (Serial_println str s) = serial s @ str @ crlf"
  "level (Serial_print str s) = level s" "level (Serial_println str s) = level s"
  "mode (Serial_print str s) = mode s" "mode (Serial_println str s) = mode s"
  "chip (Serial_print str s) = chip s" "chip (Serial_println str s) = chip s"
  "g_cmd (Serial_print str s) = g_cmd s" "g_cmd (Serial_println str s) = g_cmd s"
  "buffer (Serial_print str s) = buffer s" "buffer (Serial_println str s) = buffer s"
  "pageWr (Serial_print str s) = pageWr s" "pageWr (Serial_println str s) = pageWr s"
  "baseAddr (Serial_print str s) = baseAddr s" "baseAddr (Serial_println str s) = baseAddr s"
  "oob (Serial_print str s) = oob s" "oob (Serial_println str s) = oob s"
  by (simp_all add: Serial_print_def Serial_println_def)

lemma SetSDPState_bytezero:
  assumes "level s kPin_nWE"
  shows "fst (ReadByteFrom 0 (SetDataLinesAsInputs (digitalWrite kPin_nOE LOW
           (digitalWrite kPin_nWE HIGH (digitalWrite kPin_LED_Red HIGH s))))) = chip s 0"
  using assms by (subst ReadByteFrom_fst) simp_all

lemma SetSDPState_chip:
  assumes "level s kPin_nWE"
  shows "chip (SetSDPState bWriteProtect s) =
    (chip s)(0x5555 := (if bWriteProtect then 0xA0 else 0x20), 0x2AAA := 0x55, 0 := chip s 0)"
  using assms
  by (auto simp add: SetSDPState_def Let_def split_def SetSDPState_bytezero
      WriteByteTo_chip WriteByteTo_rest ReadByteFrom_snd)

lemma ReadString_simps [simp]:
  "g_cmd (ReadString line s) = filter (\<lambda>c. c > 31) line"
  "level (ReadString line s) = level s" "mode (ReadString line s) = mode s"
  "chip (ReadString line s) = chip s" "buffer (ReadString line s) = buffer s"
  "pageWr (ReadString line s) = pageWr s" "baseAddr (ReadString line s) = baseAddr s"
  "serial (ReadString line s) = serial s" "oob (ReadString line s) = oob s"
  by (simp_all add: ReadString_def)

lemma g_at_0_Cons: "g_cmd s = c # cs \<Longrightarrow> g_at s 0 = c"
  by (simp add: g_at_def)

section \<open>The loops over the Transfer Buffer\<close>

lemma PrintByteChars_hex2: "PrintByteChars b = hex2 b"
proof -
  have "unat b < 256" using unsigned_less [of b, where ?'a = nat] by simp
  then have "unat b div 16 mod 16 = unat b div 16" by simp
  then show ?thesis
    by (simp only: PrintByteChars_def hex2_def nib8)
qed

lemma hex4_eq:
  "[hex ! unat (drop_bit 12 (a AND 0xF000)), hex ! unat (drop_bit 8 (a AND 0x0F00)),
    hex ! unat (drop_bit 4 (a AND 0x00F0)), hex ! unat (a AND 0x000F)] = hex4 a"
proof -
  have "unat a < 65536" using unsigned_less [of a, where ?'a = nat] by simp
  then have "unat a div 4096 mod 16 = unat a div 4096" by simp
  then show ?thesis
    by (simp only: hex4_def nib16)
qed

lemma buffer_check_in [simp]: "i < kMaxBufferSize \<Longrightarrow> buffer_check i s = s"
  by (simp add: buffer_check_def)

lemma buffer_store_simps [simp]:
  "buffer (buffer_store i v s) = (buffer s)(i := v)"
  "level (buffer_store i v s) = level s" "mode (buffer_store i v s) = mode s"
  "chip (buffer_store i v s) = chip s" "g_cmd (buffer_store i v s) = g_cmd s"
  "pageWr (buffer_store i v s) = pageWr s" "baseAddr (buffer_store i v s) = baseAddr s"
  "serial (buffer_store i v s) = serial s"
  "oob (buffer_store i v s) = (if i < kMaxBufferSize then oob s else oob s @ [Buffer_index i])"
  by (simp_all add: buffer_store_def buffer_check_def)

declare ReadEEPROMIntoBuffer_loop.simps [simp del] WriteBufferToEEPROM_loop.simps [simp del]
  PrintBuffer_loop.simps [simp del] CalcBufferChecksum_loop.simps [simp del]
  PrepareBuffer_fill.simps [simp del] ProgramBuffer_loop.simps [simp del]

lemma ReadEEPROMIntoBuffer_loop_eq:
  assumes "level s kPin_nWE" and "\<not> level s kPin_nOE" and "data_inputs s"
    and "sz \<le> kMaxBufferSize"
  shows "buffer (ReadEEPROMIntoBuffer_loop addr sz x s) =
      (\<lambda>i. if x \<le> i \<and> i < sz then chip s (unat (addr + of_nat i) mod 32768) else buffer s i)
    \<and> chip (ReadEEPROMIntoBuffer_loop addr sz x s) = chip s
    \<and> level (ReadEEPROMIntoBuffer_loop addr sz x s) kPin_nWE
    \<and> \<not> level (ReadEEPROMIntoBuffer_loop addr sz x s) kPin_nOE
    \<and> mode (ReadEEPROMIntoBuffer_loop addr sz x s) = mode s
    \<and> g_cmd (ReadEEPROMIntoBuffer_loop addr sz x s) = g_cmd s
    \<and> pageWr (ReadEEPROMIntoBuffer_loop addr sz x s) = pageWr s
    \<and> baseAddr (ReadEEPROMIntoBuffer_loop addr sz x s) = baseAddr s
    \<and> serial (ReadEEPROMIntoBuffer_loop addr sz x s) = serial s
    \<and> oob (ReadEEPROMIntoBuffer_loop addr sz x s) = oob s"
  using assms
proof (induction addr sz x s rule: ReadEEPROMIntoBuffer_loop.induct)
  case (1 addr sz x s)
  show ?case
  proof (cases "x < sz")
    case True
    let ?r = "ReadByteFrom (addr + of_nat x) s"
    let ?s1 = "buffer_store x (fst ?r) (snd ?r)"
    have b: "fst ?r = chip s (unat (addr + of_nat x) mod 32768)"
      using "1.prems" by (simp add: ReadByteFrom_fst)
    have pre: "level ?s1 kPin_nWE" "\<not> level ?s1 kPin_nOE" "data_inputs ?s1"
      using "1.prems" by (simp_all add: ReadByteFrom_snd data_inputs_def)
    have unf: "ReadEEPROMIntoBuffer_loop addr sz x s = ReadEEPROMIntoBuffer_loop addr sz (x + 1) ?s1"
      using True by (simp add: ReadEEPROMIntoBuffer_loop.simps [of addr sz x s] split_def Let_def)
    have x16: "x < kMaxBufferSize"
      using True "1.prems" by simp
    note IH = "1.IH" [OF True refl prod.collapse refl pre "1.prems"(4)]
    have c1: "chip ?s1 = chip s" "buffer ?s1 = (buffer s)(x := chip s (unat (addr + of_nat x) mod 32768))"
      "mode ?s1 = mode s" "g_cmd ?s1 = g_cmd s" "pageWr ?s1 = pageWr s" "baseAddr ?s1 = baseAddr s"
      "serial ?s1 = serial s" "oob ?s1 = oob s"
      using "1.prems"(1) x16 by (simp_all add: b ReadByteFrom_snd)
    have "(\<lambda>i. if x + 1 \<le> i \<and> i < sz then chip s (unat (addr + of_nat i) mod 32768)
             else ((buffer s)(x := chip s (unat (addr + of_nat x) mod 32768))) i) =
          (\<lambda>i. if x \<le> i \<and> i < sz then chip s (unat (addr + of_nat i) mod 32768) else buffer s i)"
      using True by (auto simp add: fun_eq_iff)
    then show ?thesis
      unfolding unf using IH by (simp only: c1) simp
  next
    case False
    then show ?thesis
      using "1.prems" by (auto simp add: ReadEEPROMIntoBuffer_loop.simps [of addr sz x s] fun_eq_iff)
  qed
qed
lemma PrintBuffer_loop_eq:
  assumes "sz \<le> kMaxBufferSize"
  shows "PrintBuffer_loop sz x chk s =
    (foldl (XOR) chk (map (buffer s) [x..<sz]),
     s\<lparr>serial := serial s @ concat (map (\<lambda>i. hex2 (buffer s i)) [x..<sz])\<rparr>)"
  using assms
proof (induction sz x chk s rule: PrintBuffer_loop.induct)
  case (1 sz x chk s)
  show ?case
  proof (cases "x < sz")
    case True
    then have x16: "x < kMaxBufferSize"
      using "1.prems" by simp
    let ?s1 = "s\<lparr>serial := serial s @ hex2 (buffer s x)\<rparr>"
    have s1: "Serial_print [hex ! unat (buffer s x AND 0x0F)]
        (Serial_print [hex ! unat (drop_bit 4 (buffer s x AND 0xF0))] s) = ?s1"
      using PrintByteChars_hex2 [of "buffer s x"]
      by (simp add: Serial_print_def PrintByteChars_def)
    have e: "buffer_check x s = s"
      using x16 by simp
    have b1: "buffer (Serial_print str t) = buffer t" for str t
      by simp
    have unf: "PrintBuffer_loop sz x chk s = PrintBuffer_loop sz (x + 1) (chk XOR buffer s x) ?s1"
      using True
      by (simp only: PrintBuffer_loop.simps [of sz x chk s] Let_def e b1 s1 if_True)
    note IH = "1.IH" [OF True refl refl refl refl "1.prems", unfolded e b1 s1]
    show ?thesis
      using True IH by (simp add: unf upt_conv_Cons)
  next
    case False
    then show ?thesis
      by (simp add: PrintBuffer_loop.simps [of sz x chk s])
  qed
qed

lemma PrintBuffer_eq:
  assumes "sz \<le> kMaxBufferSize"
  shows "PrintBuffer sz s =
    s\<lparr>serial := serial s @ concat (map (\<lambda>i. hex2 (buffer s i)) [0..<sz]) @ '','' @
        hex2 (xor_sum (map (buffer s) [0..<sz])) @ crlf\<rparr>"
proof -
  have h: "Serial_print [hex ! unat (c AND 0x0F)]
        (Serial_print [hex ! unat (drop_bit 4 (c AND 0xF0))] t) = t\<lparr>serial := serial t @ hex2 c\<rparr>" for c t
    using PrintByteChars_hex2 [of c]
    by (simp add: Serial_print_def PrintByteChars_def)
  show ?thesis
    unfolding PrintBuffer_def PrintBuffer_loop_eq [OF assms] Let_def split_def fst_conv snd_conv h
    by (simp add: Serial_print_def Serial_println_def xor_sum_def)
qed

lemma led_not_control [simp]:
  "kPin_LED_Grn \<noteq> kPin_nWE" "kPin_LED_Grn \<noteq> kPin_nOE" "kPin_LED_Grn \<noteq> kPin_nCE"
  "kPin_LED_Red \<noteq> kPin_nWE" "kPin_LED_Red \<noteq> kPin_nOE" "kPin_LED_Red \<noteq> kPin_nCE"
  "kPin_WaitingForInput \<noteq> kPin_nWE" "kPin_WaitingForInput \<noteq> kPin_nOE"
  "kPin_WaitingForInput \<noteq> kPin_nCE"
  "kPin_nWE \<noteq> kPin_LED_Grn" "kPin_nOE \<noteq> kPin_LED_Grn" "kPin_nCE \<noteq> kPin_LED_Grn"
  "kPin_nWE \<noteq> kPin_LED_Red" "kPin_nOE \<noteq> kPin_LED_Red" "kPin_nCE \<noteq> kPin_LED_Red"
  "kPin_nWE \<noteq> kPin_WaitingForInput" "kPin_nOE \<noteq> kPin_WaitingForInput"
  "kPin_nCE \<noteq> kPin_WaitingForInput"
  by (simp_all add: pin_defs)

lemma ReadEEPROMIntoBuffer_eq:
  assumes "level s kPin_nWE" and "sz \<le> kMaxBufferSize"
  shows "buffer (ReadEEPROMIntoBuffer addr sz s) =
      (\<lambda>i. if i < sz then chip s (unat (addr + of_nat i) mod 32768) else buffer s i)
    \<and> chip (ReadEEPROMIntoBuffer addr sz s) = chip s
    \<and> level (ReadEEPROMIntoBuffer addr sz s) kPin_nWE
    \<and> level (ReadEEPROMIntoBuffer addr sz s) kPin_nOE
    \<and> g_cmd (ReadEEPROMIntoBuffer addr sz s) = g_cmd s
    \<and> pageWr (ReadEEPROMIntoBuffer addr sz s) = pageWr s
    \<and> baseAddr (ReadEEPROMIntoBuffer addr sz s) = baseAddr s
    \<and> serial (ReadEEPROMIntoBuffer addr sz s) = serial s
    \<and> oob (ReadEEPROMIntoBuffer addr sz s) = oob s"
proof -
  let ?s0 = "digitalWrite kPin_nOE LOW (SetDataLinesAsInputs
    (digitalWrite kPin_nWE HIGH (digitalWrite kPin_LED_Grn HIGH s)))"
  let ?s1 = "ReadEEPROMIntoBuffer_loop addr sz 0 ?s0"
  have pre: "level ?s0 kPin_nWE" "\<not> level ?s0 kPin_nOE" "data_inputs ?s0"
    using assms(1) by simp_all
  have s0: "chip ?s0 = chip s" "buffer ?s0 = buffer s" "g_cmd ?s0 = g_cmd s"
    "pageWr ?s0 = pageWr s" "baseAddr ?s0 = baseAddr s" "serial ?s0 = serial s" "oob ?s0 = oob s"
    using assms(1) by simp_all
  note L = ReadEEPROMIntoBuffer_loop_eq [OF pre assms(2), of addr 0, unfolded s0]
  from L have l1: "level ?s1 kPin_nWE" by simp
  have e: "ReadEEPROMIntoBuffer addr sz s =
    digitalWrite kPin_LED_Grn LOW (digitalWrite kPin_nOE HIGH ?s1)"
    by (simp add: ReadEEPROMIntoBuffer_def Let_def)
  show ?thesis
    unfolding e using L l1 by simp
qed
lemma ReadEEPROM_eq:
  assumes "g_at s 1 \<noteq> 0" and "level s kPin_nWE"
  shows "serial (ReadEEPROM s) =
      serial s @ hex4 (snd (addr_loop4 s 1 0)) @ '':'' @
      concat (map hex2 (chip_bytes s (snd (addr_loop4 s 1 0)) 16)) @ '','' @
      hex2 (xor_sum (chip_bytes s (snd (addr_loop4 s 1 0)) 16)) @ crlf @ ''OK'' @ crlf
    \<and> chip (ReadEEPROM s) = chip s
    \<and> map (buffer (ReadEEPROM s)) [0..<16] = chip_bytes s (snd (addr_loop4 s 1 0)) 16
    \<and> level (ReadEEPROM s) kPin_nWE"
proof -
  define addr where "addr = snd (addr_loop4 s 1 0)"
  let ?s3 = "digitalWrite kPin_nOE LOW (SetDataLinesAsInputs (digitalWrite kPin_nWE HIGH s))"
  let ?s4 = "ReadEEPROMIntoBuffer addr kMaxBufferSize ?s3"
  have l3: "level ?s3 kPin_nWE" by simp
  have s3: "chip ?s3 = chip s" "serial ?s3 = serial s"
    using assms(2) by simp_all
  note R = ReadEEPROMIntoBuffer_eq [OF l3 order_refl, of addr, unfolded s3]
  from R have b4: "map (buffer ?s4) [0..<16] = chip_bytes s addr 16"
    by (simp add: chip_bytes_def kMaxBufferSize_def)
  have "map (\<lambda>i. hex2 (buffer ?s4 i)) [0..<16] = map hex2 (map (buffer ?s4) [0..<16])"
    by (simp add: comp_def)
  then have b4': "map (\<lambda>i. hex2 (buffer ?s4 i)) [0..<16] = map hex2 (chip_bytes s addr 16)"
    by (simp only: b4)
  have p: "Serial_print [hex ! unat (addr AND 0x000F)]
     (Serial_print [hex ! unat (drop_bit 4 (addr AND 0x00F0))]
       (Serial_print [hex ! unat (drop_bit 8 (addr AND 0x0F00))]
         (Serial_print [hex ! unat (drop_bit 12 (addr AND 0xF000))] t))) =
     t\<lparr>serial := serial t @ hex4 addr\<rparr>" for t
    using hex4_eq [of addr] by (simp add: Serial_print_def)
  have e: "ReadEEPROM s = digitalWrite kPin_nOE HIGH (Serial_println ''OK''
    (PrintBuffer kMaxBufferSize (Serial_print '':'' (?s4\<lparr>serial := serial ?s4 @ hex4 addr\<rparr>))))"
    using assms(1)
    by (simp only: ReadEEPROM_def Let_def split_def addr_def [symmetric] p if_False)
  have k: "[0..<kMaxBufferSize] = [0..<16]"
    by (simp add: kMaxBufferSize_def)
  show ?thesis
    unfolding e addr_def [symmetric] PrintBuffer_eq [OF order_refl] k
    using R b4 b4' by (simp add: Serial_print_def)
qed

lemma printable_nonzero: "takeWhile (\<lambda>c. c \<noteq> 0) (filter (\<lambda>c. 31 < c) cs) = filter (\<lambda>c. 31 < c) cs"
  for cs :: "byte list"
  by (rule takeWhile_eq_all_conv [THEN iffD2]) auto

lemma loop_turn_eq:
  "loop_turn line s = dispatch (digitalWrite kPin_WaitingForInput LOW
     (ReadString line (digitalWrite kPin_WaitingForInput HIGH s)))"
  by (simp add: loop_turn_def Let_def)

section \<open>The payload and its checksum\<close>

lemma g_at_drop_Cons: "drop x (g_cmd s) = c # r \<Longrightarrow> g_at s x = c \<and> drop (Suc x) (g_cmd s) = r"
proof -
  assume a: "drop x (g_cmd s) = c # r"
  then have l: "x < length (g_cmd s)"
    by (cases "x < length (g_cmd s)") auto
  with a have "g_cmd s ! x = c"
    by (metis nth_via_drop)
  moreover from a have "drop (Suc x) (g_cmd s) = r"
    by (metis drop_Suc tl_drop list.sel(3))
  ultimately show ?thesis
    using l by (simp add: g_at_def)
qed

lemma g_at_drop_Nil: "drop x (g_cmd s) = [] \<Longrightarrow> g_at s x = 0"
  by (simp add: g_at_def)

lemma hex_encode_Cons:
  "hex_encode (b # bs) = of_char (hex ! (unat b div 16)) # of_char (hex ! (unat b mod 16)) # hex_encode bs"
  by (simp add: hex_encode_def bytes_of_def hex2_def)

lemma hex_pair_decode:
  "push_bit 4 (HexToVal (of_char (hex ! (unat b div 16)))) OR HexToVal (of_char (hex ! (unat b mod 16))) = b"
  by (rule hex2_decode) (simp add: hex2_def)

lemma hex_pair_chars:
  "(of_char (hex ! (unat b div 16)) :: byte) \<noteq> 0" "(of_char (hex ! (unat b mod 16)) :: byte) \<noteq> 0"
  "(of_char (hex ! (unat b div 16)) :: byte) \<noteq> 0x2C"
  "(31 :: byte) < of_char (hex ! (unat b div 16))" "(31 :: byte) < of_char (hex ! (unat b mod 16))"
  for b :: byte
proof -
  have "unat b < 256" using unsigned_less [of b, where ?'a = nat] by simp
  then have l: "unat b div 16 < 16" "unat b mod 16 < 16" by simp_all
  from hex_char_cases [OF l(1)] hex_char_cases [OF l(2)]
  show "(of_char (hex ! (unat b div 16)) :: byte) \<noteq> 0" "(of_char (hex ! (unat b mod 16)) :: byte) \<noteq> 0"
    "(of_char (hex ! (unat b div 16)) :: byte) \<noteq> 0x2C"
    "(31 :: byte) < of_char (hex ! (unat b div 16))" "(31 :: byte) < of_char (hex ! (unat b mod 16))"
    by auto
qed

lemma data_loop_stop:
  "g_at s x = 0 \<or> g_at s (x + 1) = 0 \<or> \<not> i < kMaxBufferSize \<or> g_at s x = 0x2C \<Longrightarrow>
   data_loop x i s = (x, i, s)"
  by (auto simp add: data_loop.simps [of x i s])

lemma empty_range: "(i \<le> j \<and> j < i) = False" for i j :: nat
  by auto

lemma data_loop_encoded:
  assumes "drop x (g_cmd s) = hex_encode bs @ rest"
    and "i \<le> kMaxBufferSize"
    and "i + length bs < kMaxBufferSize \<longrightarrow> rest = [] \<or> hd rest = 0x2C"
  shows "data_loop x i s =
    (x + 2 * min (length bs) (kMaxBufferSize - i), i + min (length bs) (kMaxBufferSize - i),
     s\<lparr>buffer := (\<lambda>j. if i \<le> j \<and> j < i + min (length bs) (kMaxBufferSize - i)
                        then bs ! (j - i) else buffer s j)\<rparr>)"
  using assms
proof (induction bs arbitrary: x i s)
  case Nil
  have "data_loop x i s = (x, i, s)"
  proof (cases "i < kMaxBufferSize")
    case True
    with Nil have "rest = [] \<or> hd rest = 0x2C" by simp
    then have "g_at s x = 0 \<or> g_at s x = 0x2C"
    proof
      assume "rest = []"
      with Nil show ?thesis by (simp add: hex_encode_def bytes_of_def g_at_drop_Nil)
    next
      assume h: "hd rest = 0x2C"
      show ?thesis
      proof (cases rest)
        case Nil
        with \<open>drop x (g_cmd s) = hex_encode [] @ rest\<close> show ?thesis
          by (simp add: hex_encode_def bytes_of_def g_at_drop_Nil)
      next
        case (Cons c r)
        with h \<open>drop x (g_cmd s) = hex_encode [] @ rest\<close> show ?thesis
          using g_at_drop_Cons [of x s c r] by (simp add: hex_encode_def bytes_of_def)
      qed
    qed
    then show ?thesis by (auto intro: data_loop_stop)
  next
    case False
    then show ?thesis by (auto intro: data_loop_stop)
  qed
  then show ?case by (simp add: empty_range)
next
  case (Cons b bs)
  show ?case
  proof (cases "i < kMaxBufferSize")
    case False
    with Cons.prems have "i = kMaxBufferSize" by simp
    then show ?thesis
      using data_loop_stop [of s x i] by (simp add: empty_range)
  next
    case True
    let ?c1 = "of_char (hex ! (unat b div 16)) :: byte"
    let ?c2 = "of_char (hex ! (unat b mod 16)) :: byte"
    from Cons.prems(1) have d: "drop x (g_cmd s) = ?c1 # ?c2 # hex_encode bs @ rest"
      by (simp add: hex_encode_Cons)
    from g_at_drop_Cons [OF d] have g1: "g_at s x = ?c1"
      and d1: "drop (Suc x) (g_cmd s) = ?c2 # hex_encode bs @ rest" by simp_all
    from g_at_drop_Cons [OF d1] have g2: "g_at s (Suc x) = ?c2"
      and d2: "drop (x + 2) (g_cmd s) = hex_encode bs @ rest" by simp_all
    let ?s1 = "buffer_store i b s"
    have unf: "data_loop x i s = data_loop (x + 2) (i + 1) ?s1"
      using True
      by (simp add: data_loop.simps [of x i s] g1 g2 hex_pair_chars hex_pair_decode Let_def)
    have s1: "?s1 = s\<lparr>buffer := (buffer s)(i := b)\<rparr>"
      using True by (simp add: buffer_store_def)
    have p: "drop (x + 2) (g_cmd ?s1) = hex_encode bs @ rest" "i + 1 \<le> kMaxBufferSize"
      "i + 1 + length bs < kMaxBufferSize \<longrightarrow> rest = [] \<or> hd rest = 0x2C"
      using d2 True Cons.prems(3) by simp_all
    note IH = Cons.IH [OF p, unfolded s1]
    have m: "min (length (b # bs)) (kMaxBufferSize - i) = Suc (min (length bs) (kMaxBufferSize - (i + 1)))"
      using True by simp
    show ?thesis
      unfolding unf s1 IH m
      by (auto simp add: fun_eq_iff nth_Cons')
  qed
qed

lemma data_loop_frame:
  assumes "i \<le> kMaxBufferSize"
  shows "fst (snd (data_loop x i s)) \<le> kMaxBufferSize
    \<and> snd (snd (data_loop x i s)) = s\<lparr>buffer := buffer (snd (snd (data_loop x i s)))\<rparr>"
  using assms
proof (induction x i s rule: data_loop.induct)
  case (1 x i s)
  show ?case
  proof (cases "g_at s x \<noteq> 0 \<and> g_at s (x + 1) \<noteq> 0 \<and> i < kMaxBufferSize \<and> g_at s x \<noteq> 0x2C")
    case True
    let ?c = "push_bit 4 (HexToVal (g_at s x)) OR HexToVal (g_at s (x + 1))"
    let ?s1 = "buffer_store i ?c s"
    have unf: "data_loop x i s = data_loop (x + 2) (i + 1) ?s1"
      using True by (simp add: data_loop.simps [of x i s] Let_def)
    have s1: "?s1 = s\<lparr>buffer := (buffer s)(i := ?c)\<rparr>"
      using True by (simp add: buffer_store_def)
    from True have "i + 1 \<le> kMaxBufferSize" by simp
    note IH = "1.IH" [OF True refl refl this]
    let ?r = "data_loop (x + 2) (i + 1) ?s1"
    have "snd (snd ?r) = ?s1\<lparr>buffer := buffer (snd (snd ?r))\<rparr>"
      by (rule conjunct2 [OF IH])
    also have "\<dots> = s\<lparr>buffer := buffer (snd (snd ?r))\<rparr>"
      using True by (simp add: buffer_store_def)
    finally have A: "snd (snd ?r) = s\<lparr>buffer := buffer (snd (snd ?r))\<rparr>" .
    show ?thesis
      unfolding unf using conjunct1 [OF IH] A by (intro conjI)
  next
    case False
    then have "data_loop x i s = (x, i, s)"
      by (auto simp add: data_loop.simps [of x i s])
    then show ?thesis
      using "1.prems" by simp
  qed
qed

lemma CalcBufferChecksum_loop_eq:
  assumes "sz \<le> kMaxBufferSize"
  shows "CalcBufferChecksum_loop sz x chk s = (foldl (XOR) chk (map (buffer s) [x..<sz]), s)"
  using assms
proof (induction sz x chk s rule: CalcBufferChecksum_loop.induct)
  case (1 sz x chk s)
  show ?case
  proof (cases "x < sz")
    case True
    then have e: "buffer_check x s = s"
      using "1.prems" by simp
    have unf: "CalcBufferChecksum_loop sz x chk s = CalcBufferChecksum_loop sz (x + 1) (chk XOR buffer s x) s"
      using True by (simp add: CalcBufferChecksum_loop.simps [of sz x chk s] Let_def e)
    note IH = "1.IH" [OF True refl refl "1.prems", unfolded e]
    show ?thesis
      unfolding unf IH using True by (simp add: upt_conv_Cons)
  next
    case False
    then show ?thesis
      by (simp add: CalcBufferChecksum_loop.simps [of sz x chk s])
  qed
qed

lemma CalcBufferChecksum_eq:
  "sz \<le> kMaxBufferSize \<Longrightarrow> CalcBufferChecksum sz s = (xor_sum (map (buffer s) [0..<sz]), s)"
  by (simp add: CalcBufferChecksum_def CalcBufferChecksum_loop_eq xor_sum_def)

lemma check_checksum_eq:
  assumes "n \<le> kMaxBufferSize"
  shows "check_checksum x n s =
    (if g_at s x = 0x2C \<and> g_at s (x + 1) \<noteq> 0 \<and> g_at s (x + 2) \<noteq> 0
        \<and> xor_sum (map (buffer s) [0..<n]) \<noteq>
            push_bit 4 (HexToVal (g_at s (x + 1))) OR HexToVal (g_at s (x + 2))
     then Inl (s\<lparr>serial := serial s @ ''ERR '' @
            print_HEX (push_bit 4 (HexToVal (g_at s (x + 1))) OR HexToVal (g_at s (x + 2))) @ '' '' @
            print_HEX (xor_sum (map (buffer s) [0..<n])) @ crlf\<rparr>)
     else Inr s)"
  by (simp add: check_checksum_def CalcBufferChecksum_eq [OF assms] Let_def
      Serial_print_def Serial_println_def)

lemma g_at_buffer [simp]: "g_at (s\<lparr>buffer := b\<rparr>) x = g_at s x"
  by (simp add: g_at_def)


lemma WriteEEPROM_mismatch:
  assumes "g_at s 0 = 0x57" and "g_at s 1 \<noteq> 0"
    and "addr_loop_colon s 1 0 = (x0, addr)" and "g_at s x0 = 0x3A"
    and "data_loop (x0 + 1) 0 s = (x, n, s')"
    and "g_at s x = 0x2C" and "g_at s (x + 1) \<noteq> 0" and "g_at s (x + 2) \<noteq> 0"
    and "provided = push_bit 4 (HexToVal (g_at s (x + 1))) OR HexToVal (g_at s (x + 2))"
    and "computed = xor_sum (map (buffer s') [0..<n])"
    and "computed \<noteq> provided"
  shows "dispatch s = s\<lparr>buffer := buffer s',
      serial := serial s @ ''ERR '' @ print_HEX provided @ '' '' @ print_HEX computed @ crlf\<rparr>"
proof -
  have w: "dispatch s = WriteEEPROM s"
    using assms(1) by (simp add: dispatch_def)
  from data_loop_frame [of 0 "x0 + 1" s] assms(5)
  have n: "n \<le> kMaxBufferSize" and s': "s' = s\<lparr>buffer := buffer s'\<rparr>"
    by simp_all
  have g: "g_at s' y = g_at s y" for y
    by (subst s') simp
  have ser: "serial s' = serial s"
    by (subst s') simp
  have "check_checksum x n s' = Inl (s'\<lparr>serial := serial s' @ ''ERR '' @
      print_HEX provided @ '' '' @ print_HEX computed @ crlf\<rparr>)"
    using assms(6-11) by (simp add: check_checksum_eq [OF n] g)
  then have "WriteEEPROM s = s'\<lparr>serial := serial s' @ ''ERR '' @
      print_HEX provided @ '' '' @ print_HEX computed @ crlf\<rparr>"
    using assms(2-5) by (simp add: WriteEEPROM_def Let_def)
  then show ?thesis
    unfolding w by (subst (asm) (2) s') (simp add: ser)
qed


lemma mismatch_example:
  fixes s s1 :: state
  defines "s \<equiv> ready_state (\<lambda>a. 0xFF) (bytes_of ''W0000:AA,BB'')"
  defines "s1 \<equiv> s\<lparr>buffer := (\<lambda>i. 0)(0 := 0xAA)\<rparr>"
  shows "g_at s 0 = 0x57" "g_at s 1 \<noteq> 0" "addr_loop_colon s 1 0 = (5, 0)" "g_at s 5 = 0x3A"
    "data_loop (5 + 1) 0 s = (8, 1, s1)"
    "g_at s 8 = 0x2C" "g_at s (8 + 1) \<noteq> 0" "g_at s (8 + 2) \<noteq> 0"
    "0xBB = push_bit 4 (HexToVal (g_at s (8 + 1))) OR HexToVal (g_at s (8 + 2))"
    "0xAA = xor_sum (map (buffer s1) [0..<1])"
    "print_HEX 0xBB = ''BB''" "print_HEX 0xAA = ''AA''" "buffer s = (\<lambda>i. 0)" "serial s = []"
proof -
  have g: "g_cmd s = [0x57, 0x30, 0x30, 0x30, 0x30, 0x3A, 0x41, 0x41, 0x2C, 0x42, 0x42]"
    by (simp add: s_def ready_state_def bytes_of_def)
  show b: "buffer s = (\<lambda>i. 0)" "serial s = []"
    by (simp_all add: s_def ready_state_def)
  have g1: "g_cmd s1 = [0x57, 0x30, 0x30, 0x30, 0x30, 0x3A, 0x41, 0x41, 0x2C, 0x42, 0x42]"
    by (simp add: g s1_def)
  show "addr_loop_colon s 1 0 = (5, 0)"
    by (simp add: addr_loop_colon_eq g HexToVal_def)
  have "data_loop 8 1 s1 = (8, 1, s1)"
    by (rule data_loop_stop) (simp add: g_at_def g1)
  then show "data_loop (5 + 1) 0 s = (8, 1, s1)"
    by (simp add: data_loop.simps [of 6 0 s] g_at_def g HexToVal_def buffer_store_def
        kMaxBufferSize_def b s1_def)
  show "0xAA = xor_sum (map (buffer s1) [0..<1])"
    by (simp add: xor_sum_def s1_def)
  show "0xBB = push_bit 4 (HexToVal (g_at s (8 + 1))) OR HexToVal (g_at s (8 + 2))"
    by (simp add: g_at_def g HexToVal_def)
  show "print_HEX 0xBB = ''BB''" "print_HEX 0xAA = ''AA''"
    by (simp_all add: print_HEX_def HEX_digits_def)
  show "g_at s 0 = 0x57" "g_at s 1 \<noteq> 0" "g_at s 5 = 0x3A" "g_at s 8 = 0x2C"
    "g_at s (8 + 1) \<noteq> 0" "g_at s (8 + 2) \<noteq> 0"
    by (simp_all add: g_at_def g)
qed

lemma hex_encode_Nil [simp]: "hex_encode [] = []"
  by (simp add: hex_encode_def bytes_of_def)

lemma hex_encode_printable: "c \<in> set (hex_encode bs) \<Longrightarrow> 31 < c"
  by (induction bs) (auto simp add: hex_encode_Cons hex_pair_chars)

lemma hex_encode_append: "hex_encode (bs @ cs) = hex_encode bs @ hex_encode cs"
  by (simp add: hex_encode_def bytes_of_def)

lemma length_hex_encode: "length (hex_encode bs) = 2 * length bs"
  by (induction bs) (simp_all add: hex_encode_Cons)

lemma WriteBufferToEEPROM_loop_frame:
  assumes "sz \<le> kMaxBufferSize"
  shows "serial (WriteBufferToEEPROM_loop addr sz x s) = serial s
    \<and> buffer (WriteBufferToEEPROM_loop addr sz x s) = buffer s
    \<and> g_cmd (WriteBufferToEEPROM_loop addr sz x s) = g_cmd s
    \<and> pageWr (WriteBufferToEEPROM_loop addr sz x s) = pageWr s
    \<and> baseAddr (WriteBufferToEEPROM_loop addr sz x s) = baseAddr s
    \<and> mode (WriteBufferToEEPROM_loop addr sz x s) = mode s
    \<and> oob (WriteBufferToEEPROM_loop addr sz x s) = oob s
    \<and> (level s kPin_nWE \<longrightarrow> level (WriteBufferToEEPROM_loop addr sz x s) kPin_nWE)"
  using assms
proof (induction addr sz x s rule: WriteBufferToEEPROM_loop.induct)
  case (1 addr sz x s)
  show ?case
  proof (cases "x < sz")
    case True
    then have e: "buffer_check x s = s"
      using "1.prems" by simp
    let ?s1 = "WriteByteTo (addr + of_nat x) (buffer s x) s"
    have unf: "WriteBufferToEEPROM_loop addr sz x s = WriteBufferToEEPROM_loop addr sz (x + 1) ?s1"
      using True by (simp add: WriteBufferToEEPROM_loop.simps [of addr sz x s] Let_def e)
    note IH = "1.IH" [OF True refl refl "1.prems", unfolded e]
    show ?thesis
      unfolding unf using IH by (simp add: WriteByteTo_rest)
  next
    case False
    then show ?thesis
      by (simp add: WriteBufferToEEPROM_loop.simps [of addr sz x s])
  qed
qed

lemma WriteBufferToEEPROM_frame:
  assumes "sz \<le> kMaxBufferSize"
  shows "serial (WriteBufferToEEPROM addr sz s) = serial s
    \<and> buffer (WriteBufferToEEPROM addr sz s) = buffer s
    \<and> g_cmd (WriteBufferToEEPROM addr sz s) = g_cmd s
    \<and> pageWr (WriteBufferToEEPROM addr sz s) = pageWr s
    \<and> baseAddr (WriteBufferToEEPROM addr sz s) = baseAddr s
    \<and> oob (WriteBufferToEEPROM addr sz s) = oob s
    \<and> level (WriteBufferToEEPROM addr sz s) kPin_nWE"
proof -
  let ?s0 = "SetDataLinesAsOutputs (digitalWrite kPin_nWE HIGH
    (digitalWrite kPin_nOE HIGH (digitalWrite kPin_LED_Red HIGH s)))"
  have l: "level ?s0 kPin_nWE" by simp
  note L = WriteBufferToEEPROM_loop_frame [OF assms, of addr 0 ?s0]
  have e: "WriteBufferToEEPROM addr sz s =
    digitalWrite kPin_LED_Red LOW (WriteBufferToEEPROM_loop addr sz 0 ?s0)"
    by (simp add: WriteBufferToEEPROM_def Let_def)
  show ?thesis
    unfolding e using L l by simp
qed

lemma xor_sum_snoc: "xor_sum (bs @ [b]) = xor_sum bs XOR b"
  by (simp add: xor_sum_def)

lemma foldl_xor: "foldl (XOR) c bs = c XOR foldl (XOR) 0 bs" for c :: byte
proof (induction bs arbitrary: c)
  case Nil
  show ?case by simp
next
  case (Cons b bs)
  from Cons [of "c XOR b"] Cons [of b] show ?case
    by (simp add: xor.assoc)
qed

lemma xor_sum_Cons: "xor_sum (b # bs) = b XOR xor_sum bs"
  using foldl_xor [of b bs] by (simp add: xor_sum_def)

lemma xor_sum_update:
  "i < length bs \<Longrightarrow> xor_sum (bs[i := bs ! i XOR d]) = xor_sum bs XOR d"
proof (induction bs arbitrary: i)
  case Nil
  then show ?case by simp
next
  case (Cons b bs)
  show ?case
  proof (cases i)
    case 0
    then show ?thesis
      by (simp add: xor_sum_Cons xor.assoc xor.commute xor.left_commute)
  next
    case (Suc j)
    with Cons show ?thesis
      by (simp add: xor_sum_Cons xor.assoc)
  qed
qed

lemma bit_flip_nonzero: "k < 8 \<Longrightarrow> (2 ^ k :: byte) \<noteq> 0"
  by (simp add: exp_eq_zero_iff)

lemma xor_sum_flip:
  assumes "i < length bs" and "k < 8"
  shows "xor_sum (bs[i := bs ! i XOR 2 ^ k]) \<noteq> xor_sum bs"
proof
  assume "xor_sum (bs[i := bs ! i XOR 2 ^ k]) = xor_sum bs"
  with xor_sum_update [OF assms(1), of "2 ^ k"] have "xor_sum bs XOR 2 ^ k = xor_sum bs"
    by simp
  then have "xor_sum bs XOR (xor_sum bs XOR 2 ^ k) = xor_sum bs XOR xor_sum bs"
    by simp
  then have "(2 ^ k :: byte) = 0"
    by (simp add: xor.assoc [symmetric])
  with bit_flip_nonzero [OF assms(2)] show False by simp
qed

lemma drop_payload:
  assumes "g_cmd s = t # a @ 0x3A # hex_encode bs @ rest" and "m \<le> length bs"
  shows "drop (length a + 2 + 2 * m) (g_cmd s) = hex_encode (drop m bs) @ rest"
proof -
  have "hex_encode bs = hex_encode (take m bs) @ hex_encode (drop m bs)"
    by (simp add: hex_encode_append [symmetric])
  with assms(1) have "g_cmd s = (t # a @ 0x3A # hex_encode (take m bs)) @ (hex_encode (drop m bs) @ rest)"
    by simp
  moreover have "length (t # a @ 0x3A # hex_encode (take m bs)) = length a + 2 + 2 * m"
    using assms(2) by (simp add: length_hex_encode min_def)
  ultimately show ?thesis
    by (metis append_eq_conv_conj)
qed

lemma payload_parse:
  assumes g: "g_cmd s = t # a @ 0x3A # hex_encode bs @ rest"
    and a: "\<forall>c\<in>set a. c \<noteq> 0 \<and> c \<noteq> 0x3A"
    and r: "length bs < kMaxBufferSize \<longrightarrow> rest = [] \<or> hd rest = 0x2C"
  shows "g_at s 1 \<noteq> 0"
    and "addr_loop_colon s 1 0 = (Suc (length a), hex_value a)"
    and "g_at s (Suc (length a)) = 0x3A"
    and "data_loop (Suc (length a) + 1) 0 s =
      (length a + 2 + 2 * min (length bs) kMaxBufferSize, min (length bs) kMaxBufferSize,
       s\<lparr>buffer := (\<lambda>j. if j < min (length bs) kMaxBufferSize then bs ! j else buffer s j)\<rparr>)"
proof -
  have d1: "drop (Suc 0) (g_cmd s) = a @ 0x3A # hex_encode bs @ rest"
    by (simp add: g)
  have tw: "takeWhile (\<lambda>c. c \<noteq> 0x3A \<and> c \<noteq> 0) (a @ 0x3A # hex_encode bs @ rest) = a"
    using a by (simp add: takeWhile_append2)
  show "addr_loop_colon s 1 0 = (Suc (length a), hex_value a)"
    by (simp add: addr_loop_colon_eq d1 tw hex_value_def del: drop_Suc_Cons)
  have "g_cmd s = (t # a) @ 0x3A # hex_encode bs @ rest"
    by (simp add: g)
  then have da: "drop (Suc (length a)) (g_cmd s) = 0x3A # hex_encode bs @ rest"
    by (metis append_eq_conv_conj length_Cons)
  from g_at_drop_Cons [OF da] have c3: "g_at s (Suc (length a)) = 0x3A"
    and db: "drop (Suc (Suc (length a))) (g_cmd s) = hex_encode bs @ rest"
    by simp_all
  from c3 show "g_at s (Suc (length a)) = 0x3A" .
  show "g_at s 1 \<noteq> 0"
  proof (cases a)
    case Nil
    with g show ?thesis by (simp add: g_at_def)
  next
    case (Cons c cs)
    with g a show ?thesis by (simp add: g_at_def)
  qed
  from db have "drop (Suc (length a) + 1) (g_cmd s) = hex_encode bs @ rest"
    by simp
  from data_loop_encoded [OF this, of 0] r
  show "data_loop (Suc (length a) + 1) 0 s =
      (length a + 2 + 2 * min (length bs) kMaxBufferSize, min (length bs) kMaxBufferSize,
       s\<lparr>buffer := (\<lambda>j. if j < min (length bs) kMaxBufferSize then bs ! j else buffer s j)\<rparr>)"
    by (simp cong: if_cong)
qed

lemma filled_buffer:
  "map (\<lambda>j. if j < min (length bs) n then bs ! j else f j) [0..<min (length bs) n] = take n bs"
  by (rule nth_equalityI) simp_all

lemma WriteEEPROM_accepts:
  assumes g: "g_cmd s = t # a @ 0x3A # hex_encode bs @ rest"
    and a: "\<forall>c\<in>set a. c \<noteq> 0 \<and> c \<noteq> 0x3A"
    and r: "length bs < kMaxBufferSize \<longrightarrow> rest = [] \<or> hd rest = 0x2C"
    and c: "check_checksum (length a + 2 + 2 * min (length bs) kMaxBufferSize)
        (min (length bs) kMaxBufferSize)
        (s\<lparr>buffer := (\<lambda>j. if j < min (length bs) kMaxBufferSize then bs ! j else buffer s j)\<rparr>)
      = Inr (s\<lparr>buffer := (\<lambda>j. if j < min (length bs) kMaxBufferSize then bs ! j else buffer s j)\<rparr>)"
  shows "serial (WriteEEPROM s) = serial s @ ''OK'' @ crlf
    \<and> map (buffer (WriteEEPROM s)) [0..<min (length bs) kMaxBufferSize] = take kMaxBufferSize bs
    \<and> level (WriteEEPROM s) kPin_nWE = (0 < length bs \<or> level s kPin_nWE)
    \<and> pageWr (WriteEEPROM s) = pageWr s \<and> oob (WriteEEPROM s) = oob s"
proof -
  let ?m = "min (length bs) kMaxBufferSize"
  let ?s2 = "s\<lparr>buffer := (\<lambda>j. if j < ?m then bs ! j else buffer s j)\<rparr>"
  note P = payload_parse [OF g a r]
  have z: "(g_at s 1 = 0) = False" "(g_at s (Suc (length a)) \<noteq> 0x3A) = False"
    using P(1) P(3) by simp_all
  have e: "WriteEEPROM s = (let s' = (if 0 < ?m then WriteBufferToEEPROM (hex_value a) ?m ?s2 else ?s2);
      s' = (if - 1 < int ?m then Serial_println ''OK'' s' else s') in s')"
    by (simp only: WriteEEPROM_def z if_False P(2) P(4) c Let_def split_conv sum.case)
  note F = WriteBufferToEEPROM_frame [of ?m "hex_value a" ?s2]
  have "map (\<lambda>j. if j < ?m then bs ! j else buffer s j) [0..<?m] = take kMaxBufferSize bs"
    by (rule filled_buffer)
  then have b: "map (buffer ?s2) [0..<?m] = take kMaxBufferSize bs"
    by simp
  show ?thesis
  proof (cases "0 < ?m")
    case True
    with F b show ?thesis
      unfolding e Let_def by (simp add: kMaxBufferSize_def)
  next
    case False
    with b show ?thesis
      unfolding e Let_def by (simp add: kMaxBufferSize_def)
  qed
qed

lemma checksum_field:
  assumes g: "g_cmd s = t # a @ 0x3A # hex_encode bs @ 0x2C # hex_encode [cks] @ rest"
    and l: "length bs \<le> kMaxBufferSize"
  shows "g_at s (length a + 2 + 2 * length bs) = 0x2C"
    and "g_at s (length a + 2 + 2 * length bs + 1) \<noteq> 0"
    and "g_at s (length a + 2 + 2 * length bs + 2) \<noteq> 0"
    and "push_bit 4 (HexToVal (g_at s (length a + 2 + 2 * length bs + 1)))
           OR HexToVal (g_at s (length a + 2 + 2 * length bs + 2)) = cks"
proof -
  let ?x = "length a + 2 + 2 * length bs"
  from drop_payload [OF g order_refl]
  have d0: "drop ?x (g_cmd s) = 0x2C # of_char (hex ! (unat cks div 16)) #
      of_char (hex ! (unat cks mod 16)) # rest"
    by (simp add: hex_encode_Cons)
  from g_at_drop_Cons [OF d0] have g0: "g_at s ?x = 0x2C"
    and d1: "drop (Suc ?x) (g_cmd s) = of_char (hex ! (unat cks div 16)) #
      of_char (hex ! (unat cks mod 16)) # rest"
    by simp_all
  from g_at_drop_Cons [OF d1] have g1: "g_at s (Suc ?x) = of_char (hex ! (unat cks div 16))"
    and d2: "drop (Suc (Suc ?x)) (g_cmd s) = of_char (hex ! (unat cks mod 16)) # rest"
    by simp_all
  from g_at_drop_Cons [OF d2] have g2: "g_at s (Suc (Suc ?x)) = of_char (hex ! (unat cks mod 16))"
    by simp
  from g0 show "g_at s ?x = 0x2C" .
  from g1 show "g_at s (?x + 1) \<noteq> 0" by (simp add: hex_pair_chars)
  from g2 show "g_at s (?x + 2) \<noteq> 0" by (simp add: hex_pair_chars)
  from g1 g2 show "push_bit 4 (HexToVal (g_at s (?x + 1))) OR HexToVal (g_at s (?x + 2)) = cks"
    by (simp add: hex_pair_decode)
qed

lemma filter_hex_encode: "filter (\<lambda>c. 31 < c) (hex_encode bs) = hex_encode bs"
  by (rule filter_True) (simp add: hex_encode_printable)

lemma W_line_printable:
  assumes "\<forall>c\<in>set a. 31 < c"
  shows "filter (\<lambda>c. 31 < c) (W_line a bs cks) = W_line a bs cks"
  using assms by (simp add: W_line_def filter_hex_encode filter_id_conv)

lemma gt_31_nonzero: "31 < c \<Longrightarrow> c \<noteq> 0" for c :: byte
  by auto

lemma W_line_run:
  assumes n: "level s kPin_nWE" and a: "\<forall>c\<in>set a. 31 < c \<and> c \<noteq> 0x3A"
    and l: "length bs \<le> kMaxBufferSize"
  shows "(cks = xor_sum bs \<longrightarrow>
      serial (loop_turn (W_line a bs cks) s) = serial s @ ''OK'' @ crlf)
    \<and> (cks \<noteq> xor_sum bs \<longrightarrow>
      serial (loop_turn (W_line a bs cks) s) =
        serial s @ ''ERR '' @ print_HEX cks @ '' '' @ print_HEX (xor_sum bs) @ crlf
      \<and> chip (loop_turn (W_line a bs cks) s) = chip s)"
proof -
  let ?s1 = "digitalWrite kPin_WaitingForInput LOW
    (ReadString (W_line a bs cks) (digitalWrite kPin_WaitingForInput HIGH s))"
  let ?x = "length a + 2 + 2 * length bs"
  let ?s2 = "?s1\<lparr>buffer := (\<lambda>j. if j < length bs then bs ! j else buffer ?s1 j)\<rparr>"
  from a have a31: "\<forall>c\<in>set a. 31 < c" by simp
  have g: "g_cmd ?s1 = 0x57 # a @ 0x3A # hex_encode bs @ 0x2C # hex_encode [cks] @ []"
    using W_line_printable [OF a31, of bs cks] by (simp add: W_line_def)
  have g': "g_cmd ?s1 = 0x57 # a @ 0x3A # hex_encode bs @ (0x2C # hex_encode [cks])"
    using g by simp
  have s1: "serial ?s1 = serial s" "chip ?s1 = chip s"
    using n by simp_all
  have d: "loop_turn (W_line a bs cks) s = WriteEEPROM ?s1"
    unfolding loop_turn_eq using g by (simp add: dispatch_def g_at_def)
  have d': "dispatch ?s1 = WriteEEPROM ?s1"
    using g by (simp add: dispatch_def g_at_def)
  have g0: "g_at ?s1 0 = 0x57"
    using g by (simp add: g_at_def)
  from a have a0: "\<forall>c\<in>set a. c \<noteq> 0 \<and> c \<noteq> 0x3A"
    by (auto dest: gt_31_nonzero)
  have r: "length bs < kMaxBufferSize \<longrightarrow> 0x2C # hex_encode [cks] = [] \<or> hd (0x2C # hex_encode [cks]) = 0x2C"
    by simp
  have m: "min (length bs) kMaxBufferSize = length bs"
    using l by simp
  note P = payload_parse [OF g' a0 r, unfolded m]
  note C = checksum_field [OF g l]
  have b2: "map (buffer ?s2) [0..<length bs] = bs"
    by (rule nth_equalityI) simp_all
  have gs2: "g_at ?s2 y = g_at ?s1 y" for y
    by simp
  show ?thesis
  proof (intro conjI impI)
    assume eq: "cks = xor_sum bs"
    have "check_checksum ?x (length bs) ?s2 = Inr ?s2"
      unfolding check_checksum_eq [OF l] gs2 b2 using C(4) eq by simp
    from WriteEEPROM_accepts [OF g' a0 r, unfolded m, OF this]
    show "serial (loop_turn (W_line a bs cks) s) = serial s @ ''OK'' @ crlf"
      unfolding d by (simp add: s1)
  next
    assume ne: "cks \<noteq> xor_sum bs"
    note M = WriteEEPROM_mismatch [OF g0 P(1) P(2) P(3) P(4) C(1) C(2) C(3) C(4) [symmetric]
      b2 [THEN arg_cong [where f = xor_sum], symmetric] ne [symmetric]]
    from M show "serial (loop_turn (W_line a bs cks) s) =
        serial s @ ''ERR '' @ print_HEX cks @ '' '' @ print_HEX (xor_sum bs) @ crlf"
      unfolding d d' by (simp add: s1)
    from M show "chip (loop_turn (W_line a bs cks) s) = chip s"
      unfolding d d' by (simp add: s1)
  qed
qed

lemma pageWr_store_simps [simp]:
  "pageWr (pageWr_store i v s) = (pageWr s)(i := v)"
  "level (pageWr_store i v s) = level s" "mode (pageWr_store i v s) = mode s"
  "chip (pageWr_store i v s) = chip s" "g_cmd (pageWr_store i v s) = g_cmd s"
  "buffer (pageWr_store i v s) = buffer s" "baseAddr (pageWr_store i v s) = baseAddr s"
  "serial (pageWr_store i v s) = serial s"
  "oob (pageWr_store i v s) = (if i < kPageSize then oob s else oob s @ [PageWr_index i])"
  by (simp_all add: pageWr_store_def pageWr_check_def)

lemma buffer_check_simps [simp]:
  "pageWr (buffer_check i s) = pageWr s"
  "level (buffer_check i s) = level s" "mode (buffer_check i s) = mode s"
  "chip (buffer_check i s) = chip s" "g_cmd (buffer_check i s) = g_cmd s"
  "buffer (buffer_check i s) = buffer s" "baseAddr (buffer_check i s) = baseAddr s"
  "serial (buffer_check i s) = serial s"
  "oob (buffer_check i s) = (if i < kMaxBufferSize then oob s else oob s @ [Buffer_index i])"
  by (simp_all add: buffer_check_def)

lemma FillBuffer_copy_frame:
  "buffer (FillBuffer_copy addr n s) = buffer s
   \<and> serial (FillBuffer_copy addr n s) = serial s
   \<and> chip (FillBuffer_copy addr n s) = chip s
   \<and> level (FillBuffer_copy addr n s) = level s
   \<and> mode (FillBuffer_copy addr n s) = mode s
   \<and> g_cmd (FillBuffer_copy addr n s) = g_cmd s
   \<and> baseAddr (FillBuffer_copy addr n s) = baseAddr s"
  by (induction n arbitrary: s) (simp_all add: Let_def)

lemma FillBuffer_copy_pageWr:
  "pageWr (FillBuffer_copy addr n s) =
    (\<lambda>i. if unat (addr AND 0x7F) \<le> i \<and> i < unat (addr AND 0x7F) + n
         then buffer s (i - unat (addr AND 0x7F)) else pageWr s i)"
proof (induction n arbitrary: s)
  case 0
  show ?case by (simp add: empty_range)
next
  case (Suc n)
  show ?case
    unfolding FillBuffer_copy.simps Let_def Suc
    by (auto simp add: fun_eq_iff)
qed

lemma FillBuffer_accepts:
  assumes g: "g_cmd s = t # a @ 0x3A # hex_encode bs @ rest"
    and a: "\<forall>c\<in>set a. c \<noteq> 0 \<and> c \<noteq> 0x3A"
    and r: "length bs < kMaxBufferSize \<longrightarrow> rest = [] \<or> hd rest = 0x2C"
    and c: "check_checksum (length a + 2 + 2 * min (length bs) kMaxBufferSize)
        (min (length bs) kMaxBufferSize)
        (s\<lparr>buffer := (\<lambda>j. if j < min (length bs) kMaxBufferSize then bs ! j else buffer s j)\<rparr>)
      = Inr (s\<lparr>buffer := (\<lambda>j. if j < min (length bs) kMaxBufferSize then bs ! j else buffer s j)\<rparr>)"
  shows "FillBuffer s = Serial_println ''OK'' (FillBuffer_copy (hex_value a)
          (min (length bs) kMaxBufferSize + 1)
          (s\<lparr>buffer := (\<lambda>j. if j < min (length bs) kMaxBufferSize then bs ! j else buffer s j)\<rparr>))"
proof -
  note P = payload_parse [OF g a r]
  have z: "(g_at s 1 = 0) = False" "(g_at s (Suc (length a)) \<noteq> 0x3A) = False"
    using P(1) P(3) by simp_all
  show ?thesis
    by (simp only: FillBuffer_def z if_False P(2) P(4) c Let_def split_conv sum.case)
qed

lemma PrepareBuffer_fill_eq:
  "x < kPageSize \<Longrightarrow> PrepareBuffer_fill x s =
    s\<lparr>pageWr := (pageWr s)(kPageSize := 0xFF),
      oob := oob s @ replicate (kPageSize - x) (PageWr_index kPageSize)\<rparr>"
proof (induction x s rule: PrepareBuffer_fill.induct)
  case (1 x s)
  let ?s1 = "pageWr_store kPageSize 0xFF s"
  have s1: "?s1 = s\<lparr>pageWr := (pageWr s)(kPageSize := 0xFF), oob := oob s @ [PageWr_index kPageSize]\<rparr>"
    by (simp add: pageWr_store_def pageWr_check_def)
  have unf: "PrepareBuffer_fill x s = PrepareBuffer_fill (x + 1) ?s1"
    using "1.prems" by (simp add: PrepareBuffer_fill.simps [of x s])
  show ?case
  proof (cases "x + 1 < kPageSize")
    case True
    have r: "kPageSize - x = Suc (kPageSize - (x + 1))"
      using True by simp
    have "PrepareBuffer_fill (x + 1) ?s1 = ?s1\<lparr>pageWr := (pageWr ?s1)(kPageSize := 0xFF),
        oob := oob ?s1 @ replicate (kPageSize - (x + 1)) (PageWr_index kPageSize)\<rparr>"
      by (rule "1.IH" [OF "1.prems" True])
    also have "\<dots> = s\<lparr>pageWr := (pageWr s)(kPageSize := 0xFF),
        oob := oob s @ replicate (Suc (kPageSize - (x + 1))) (PageWr_index kPageSize)\<rparr>"
      unfolding s1 by simp
    finally show ?thesis
      unfolding unf r .
  next
    case False
    with "1.prems" have r1: "kPageSize - x = Suc 0" by simp
    from False have "PrepareBuffer_fill (x + 1) ?s1 = ?s1"
      by (subst PrepareBuffer_fill.simps) simp
    also have "?s1 = s\<lparr>pageWr := (pageWr s)(kPageSize := 0xFF),
        oob := oob s @ replicate (kPageSize - x) (PageWr_index kPageSize)\<rparr>"
      unfolding s1 r1 by simp
    finally show ?thesis
      unfolding unf .
  qed
qed

lemma PrepareBuffer_eq:
  assumes "g_at s 1 \<noteq> 0"
  shows "PrepareBuffer s =
    s\<lparr>baseAddr := snd (addr_loop4 s 1 0),
      pageWr := (pageWr s)(kPageSize := 0xFF),
      serial := serial s @ ''OK'' @ crlf,
      oob := oob s @ replicate kPageSize (PageWr_index kPageSize)\<rparr>"
proof -
  have g: "g_at (s\<lparr>baseAddr := b\<rparr>) y = g_at s y" for b y
    by (simp add: g_at_def)
  have a: "addr_loop4 (s\<lparr>baseAddr := 0\<rparr>) (Suc 0) 0 = addr_loop4 s (Suc 0) 0"
    by (simp add: addr_loop4_eq)
  have k: "0 < kPageSize" by (simp add: kPageSize_def)
  show ?thesis
    using assms
    by (simp add: PrepareBuffer_def Let_def split_def a PrepareBuffer_fill_eq [OF k]
        Serial_println_def)
qed

lemma FillBuffer_copy_oob:
  "oob (FillBuffer_copy addr n s) = oob s @ concat (map
     (\<lambda>k. (if k < kMaxBufferSize then [] else [Buffer_index k]) @
          (if unat (addr AND 0x7F) + k < kPageSize then []
           else [PageWr_index (unat (addr AND 0x7F) + k)]))
     (rev [0..<n]))"
  by (induction n arbitrary: s) (simp_all add: Let_def)

lemma no_checksum_at_end:
  assumes g: "g_cmd s = t # a @ 0x3A # hex_encode bs @ []" and l: "length bs \<le> kMaxBufferSize"
  shows "check_checksum (length a + 2 + 2 * length bs) (length bs) (s\<lparr>buffer := b\<rparr>) =
    Inr (s\<lparr>buffer := b\<rparr>)"
proof -
  from drop_payload [OF g order_refl] have "drop (length a + 2 + 2 * length bs) (g_cmd s) = []"
    by simp
  then have "g_at s (length a + 2 + 2 * length bs) = 0"
    by (rule g_at_drop_Nil)
  then show ?thesis
    by (simp add: check_checksum_eq [OF l])
qed

lemma S_line_run:
  assumes a: "\<forall>c\<in>set a. 31 < c \<and> c \<noteq> 0x3A" and l: "length bs \<le> kMaxBufferSize"
  shows "loop_turn (0x53 # a @ 0x3A # hex_encode bs) s =
    Serial_println ''OK'' (FillBuffer_copy (hex_value a) (length bs + 1)
      ((digitalWrite kPin_WaitingForInput LOW
         (ReadString (0x53 # a @ 0x3A # hex_encode bs) (digitalWrite kPin_WaitingForInput HIGH s)))
       \<lparr>buffer := (\<lambda>j. if j < length bs then bs ! j else buffer s j)\<rparr>))"
proof -
  let ?line = "0x53 # a @ 0x3A # hex_encode bs"
  let ?s1 = "digitalWrite kPin_WaitingForInput LOW
    (ReadString ?line (digitalWrite kPin_WaitingForInput HIGH s))"
  have "filter (\<lambda>c. 31 < c) ?line = ?line"
    using a by (simp add: filter_hex_encode filter_id_conv)
  then have g: "g_cmd ?s1 = 0x53 # a @ 0x3A # hex_encode bs @ []"
    by simp
  from a have a0: "\<forall>c\<in>set a. c \<noteq> 0 \<and> c \<noteq> 0x3A"
    by (auto dest: gt_31_nonzero)
  have r: "length bs < kMaxBufferSize \<longrightarrow> ([] :: byte list) = [] \<or> hd [] = (0x2C :: byte)"
    by simp
  have m: "min (length bs) kMaxBufferSize = length bs"
    using l by simp
  have d: "loop_turn ?line s = FillBuffer ?s1"
    unfolding loop_turn_eq using g by (simp add: dispatch_def g_at_def)
  have b: "buffer ?s1 = buffer s"
    by simp
  note FA = FillBuffer_accepts [OF g a0 r, unfolded m, OF no_checksum_at_end [OF g l]]
  from FA show ?thesis
    unfolding d b .
qed

lemma W_line_nochk_run:
  assumes a: "\<forall>c\<in>set a. 31 < c \<and> c \<noteq> 0x3A" and l: "length bs \<le> kMaxBufferSize"
  shows "map (buffer (loop_turn (0x57 # a @ 0x3A # hex_encode bs) s)) [0..<length bs] = bs
    \<and> pageWr (loop_turn (0x57 # a @ 0x3A # hex_encode bs) s) = pageWr s
    \<and> oob (loop_turn (0x57 # a @ 0x3A # hex_encode bs) s) = oob s
    \<and> serial (loop_turn (0x57 # a @ 0x3A # hex_encode bs) s) = serial s @ ''OK'' @ crlf"
proof -
  let ?line = "0x57 # a @ 0x3A # hex_encode bs"
  let ?s1 = "digitalWrite kPin_WaitingForInput LOW
    (ReadString ?line (digitalWrite kPin_WaitingForInput HIGH s))"
  have "filter (\<lambda>c. 31 < c) ?line = ?line"
    using a by (simp add: filter_hex_encode filter_id_conv)
  then have g: "g_cmd ?s1 = 0x57 # a @ 0x3A # hex_encode bs @ []"
    by simp
  from a have a0: "\<forall>c\<in>set a. c \<noteq> 0 \<and> c \<noteq> 0x3A"
    by (auto dest: gt_31_nonzero)
  have r: "length bs < kMaxBufferSize \<longrightarrow> ([] :: byte list) = [] \<or> hd [] = (0x2C :: byte)"
    by simp
  have m: "min (length bs) kMaxBufferSize = length bs"
    using l by simp
  have d: "loop_turn ?line s = WriteEEPROM ?s1"
    unfolding loop_turn_eq using g by (simp add: dispatch_def g_at_def)
  have t: "take kMaxBufferSize bs = bs"
    using l by simp
  note WA = WriteEEPROM_accepts [OF g a0 r, unfolded m t, OF no_checksum_at_end [OF g l]]
  from WA show ?thesis
    unfolding d by simp
qed


lemma hex_decode_encode: "hex_decode (hex_encode bs) = bs"
  by (induction bs) (simp_all add: hex_encode_Cons hex_pair_decode)





section \<open>The write-enable line between commands\<close>

text \<open>
  \<open>setup\<close> leaves nWE high, and every command that moves nWE leaves it high again, so
  nWE is high whenever the sketch waits for a line. The theorems on the commands below
  assume this of the state in which a command starts.
\<close>

lemma nWE_SetSDPState: "level (SetSDPState b s) kPin_nWE"
  by (simp add: SetSDPState_def Let_def split_def WriteByteTo_rest)

lemma nWE_BlankEEPROM: "level (BlankEEPROM s) kPin_nWE"
  by (simp add: BlankEEPROM_def Let_def WriteByteTo_rest)

lemma nWE_ProgramBuffer_loop:
  "level s kPin_nWE \<Longrightarrow> level (ProgramBuffer_loop x s) kPin_nWE"
proof (induction x s rule: ProgramBuffer_loop.induct)
  case (1 x s)
  show ?case
  proof (cases "x < kPageSize")
    case True
    let ?s1 = "pageWr_check x s"
    let ?s2 = "WriteByteTo (baseAddr ?s1 + of_nat x) (pageWr ?s1 x) ?s1"
    have "level ?s2 kPin_nWE"
      by (simp add: WriteByteTo_rest)
    from "1.IH" [OF True refl refl this] have "level (ProgramBuffer_loop (x + 1) ?s2) kPin_nWE" .
    then show ?thesis
      using True by (simp add: ProgramBuffer_loop.simps [of x s] Let_def)
  next
    case False
    then show ?thesis
      using "1.prems" by (simp add: ProgramBuffer_loop.simps [of x s])
  qed
qed

lemma nWE_ProgramBuffer: "level (ProgramBuffer s) kPin_nWE"
  by (simp add: ProgramBuffer_def Let_def nWE_ProgramBuffer_loop)

lemma nWE_ReadEEPROM: "level s kPin_nWE \<Longrightarrow> level (ReadEEPROM s) kPin_nWE"
  using ReadEEPROM_eq [of s] by (cases "g_at s 1 = 0") (simp_all add: ReadEEPROM_def)

lemma nWE_PrepareBuffer: "level s kPin_nWE \<Longrightarrow> level (PrepareBuffer s) kPin_nWE"
  using PrepareBuffer_eq [of s] by (cases "g_at s 1 = 0") (simp_all add: PrepareBuffer_def)

lemma nWE_check_checksum:
  assumes "n \<le> kMaxBufferSize" and "level s kPin_nWE"
  shows "case check_checksum x n s of Inl t \<Rightarrow> level t kPin_nWE | Inr t \<Rightarrow> t = s"
  using assms(2) by (simp add: check_checksum_eq [OF assms(1)])

lemma nWE_WriteEEPROM:
  assumes "level s kPin_nWE"
  shows "level (WriteEEPROM s) kPin_nWE"
proof -
  obtain x addr where a: "addr_loop_colon s (Suc 0) 0 = (x, addr)"
    by (cases "addr_loop_colon s (Suc 0) 0")
  obtain y n t where d: "data_loop (Suc x) 0 s = (y, n, t)"
    by (cases "data_loop (Suc x) 0 s")
  from data_loop_frame [of 0 "Suc x" s] have n: "n \<le> kMaxBufferSize" and t: "t = s\<lparr>buffer := buffer t\<rparr>"
    by (simp_all add: d)
  from t assms have l: "level t kPin_nWE"
    by (metis state.select_convs(1) state.surjective state.update_convs(5))
  from nWE_check_checksum [OF n l, of y] WriteBufferToEEPROM_frame [OF n, of addr]
  show ?thesis
    using assms l
    by (auto simp: WriteEEPROM_def a d Let_def split: sum.splits)
qed

lemma nWE_FillBuffer:
  assumes "level s kPin_nWE"
  shows "level (FillBuffer s) kPin_nWE"
proof -
  obtain x addr where a: "addr_loop_colon s (Suc 0) 0 = (x, addr)"
    by (cases "addr_loop_colon s (Suc 0) 0")
  obtain y n t where d: "data_loop (Suc x) 0 s = (y, n, t)"
    by (cases "data_loop (Suc x) 0 s")
  from data_loop_frame [of 0 "Suc x" s] have n: "n \<le> kMaxBufferSize" and t: "t = s\<lparr>buffer := buffer t\<rparr>"
    by (simp_all add: d)
  from t assms have l: "level t kPin_nWE"
    by (metis state.select_convs(1) state.surjective state.update_convs(5))
  from nWE_check_checksum [OF n l, of y]
  show ?thesis
    using assms l
    by (auto simp: FillBuffer_def a d Let_def FillBuffer_copy_frame split: sum.splits)
qed

lemma nWE_loop_turn:
  assumes "level s kPin_nWE"
  shows "level (loop_turn line s) kPin_nWE"
proof -
  let ?s = "digitalWrite kPin_WaitingForInput LOW
    (ReadString line (digitalWrite kPin_WaitingForInput HIGH s))"
  have l: "level ?s kPin_nWE"
    using assms by simp
  show ?thesis
    unfolding loop_turn_eq dispatch_def Let_def
    using l nWE_SetSDPState nWE_BlankEEPROM nWE_ProgramBuffer nWE_ReadEEPROM [OF l]
      nWE_PrepareBuffer [OF l] nWE_WriteEEPROM [OF l] nWE_FillBuffer [OF l]
    by (simp add: Help_def)
qed

lemma nWE_setup: "level (setup_sketch s) kPin_nWE"
  by (simp add: setup_sketch_def Let_def SetAddress_control)

lemma nWE_loop:
  "level (foldl (\<lambda>s line. loop_turn line s) (setup_sketch s) lines) kPin_nWE"
proof (induction lines rule: rev_induct)
  case Nil
  show ?case by (simp add: nWE_setup)
next
  case (snoc line lines)
  then show ?case by (simp add: nWE_loop_turn)
qed

section \<open>The claims\<close>

subsection \<open>Address lines\<close>

text \<open>
  Claim C10. \<open>SetAddress\<close> drives the fifteen address lines A0 to A14 only: two
  addresses that are congruent modulo 0x8000 leave the pins in the same state, select
  the same cell of the chip (the address modulo 0x8000), and a byte read or written
  through them behaves the same. Bit 15 of the 16-bit \<open>int\<close> is ignored.
\<close>

theorem address_lines_mod_0x8000:
  assumes "unat a mod 0x8000 = unat b mod 0x8000"
  shows "SetAddress a s = SetAddress b s
    \<and> addr_lines (SetAddress a s) = unat a mod 0x8000
    \<and> ReadByteFrom a s = ReadByteFrom b s
    \<and> WriteByteTo a v s = WriteByteTo b v s"
  using SetAddress_low_bits [OF assms, of s] assms
  by (simp add: addr_lines_SetAddress ReadByteFrom_def WriteByteTo_def)

text \<open>The addresses 0x8001 and 0x0001 select the same cell, number 1.\<close>

theorem address_lines_mod_0x8000_witness:
  "unat (0x8001 :: int16) mod 0x8000 = unat (0x0001 :: int16) mod 0x8000
   \<and> SetAddress 0x8001 (ready_state (\<lambda>a. 0xFF) []) = SetAddress 0x0001 (ready_state (\<lambda>a. 0xFF) [])
   \<and> addr_lines (SetAddress 0x8001 (ready_state (\<lambda>a. 0xFF) [])) = 1"
  using address_lines_mod_0x8000 [of "0x8001" "0x0001" "ready_state (\<lambda>a. 0xFF) []"]
  by (simp add: addr_lines_SetAddress)

subsection \<open>Address parsing\<close>

text \<open>
  Claim C5, as amended. \<open>ReadEEPROM\<close> and \<open>PrepareBuffer\<close> parse the address with
  \<open>addr_loop4\<close>, which consumes at most four characters: it stops at the end of the
  line or after the fourth character (it does not stop at a colon). \<open>WriteEEPROM\<close>
  and \<open>FillBuffer\<close> parse it with \<open>addr_loop_colon\<close>, which consumes every character up
  to the first colon or the end of the line, however many there are. In both cases the
  address is a 16-bit value.
\<close>

theorem address_parsing:
  "fst (addr_loop4 s 1 0) \<le> 5
   \<and> addr_loop4 s 1 0 =
       (1 + length (take 4 (takeWhile (\<lambda>c. c \<noteq> 0) (drop 1 (g_cmd s)))),
        hex_value (take 4 (takeWhile (\<lambda>c. c \<noteq> 0) (drop 1 (g_cmd s)))))
   \<and> addr_loop_colon s 1 0 =
       (1 + length (takeWhile (\<lambda>c. c \<noteq> 0x3A \<and> c \<noteq> 0) (drop 1 (g_cmd s))),
        hex_value (takeWhile (\<lambda>c. c \<noteq> 0x3A \<and> c \<noteq> 0) (drop 1 (g_cmd s))))
   \<and> unat (snd (addr_loop4 s 1 0)) < 2 ^ 16
   \<and> unat (snd (addr_loop_colon s 1 0)) < 2 ^ 16"
proof -
  have "unat w < 2 ^ 16" for w :: int16
    using unsigned_less [of w, where ?'a = nat] by simp
  then show ?thesis
    by (simp add: addr_loop4_eq addr_loop_colon_eq hex_value_def)
qed

text \<open>
  The claim as stated fails for \<open>W\<close>: on the line \<open>W12345:AA\<close> the loop consumes five
  digits (it stops at index 6, the colon) and the address is 0x2345, not the value
  0x1234 of the first four digits.
\<close>

theorem address_parsing_counterexample:
  "fst (addr_loop_colon (ready_state (\<lambda>a. 0xFF) (bytes_of ''W12345:AA'')) 1 0) = 6
   \<and> snd (addr_loop_colon (ready_state (\<lambda>a. 0xFF) (bytes_of ''W12345:AA'')) 1 0) = 0x2345
   \<and> hex_value (take 4 (bytes_of ''12345'')) = 0x1234"
  by (simp add: addr_loop_colon_eq ready_state_def bytes_of_def hex_value_def HexToVal_def)

subsection \<open>Software data protection\<close>

text \<open>
  Claim C8. A \<open>P\<close> or a \<open>U\<close> command leaves byte 0 of the chip as it was: the handler
  reads byte 0 first and its last write stores that value at address 0. The write-enable
  line is high when the command starts, as \<open>setup\<close> and every handler leave it.
\<close>

theorem SDP_preserves_byte_0:
  assumes "level s kPin_nWE" and "c = 0x50 \<or> c = 0x55"
  shows "chip (loop_turn (c # rest) s) 0 = chip s 0"
proof -
  let ?s = "digitalWrite kPin_WaitingForInput LOW
    (ReadString (c # rest) (digitalWrite kPin_WaitingForInput HIGH s))"
  from assms(2) have "g_cmd ?s = c # filter (\<lambda>c. c > 31) rest"
    by auto
  then have c: "g_at ?s 0 = c"
    by (rule g_at_0_Cons)
  have l: "level ?s kPin_nWE"
    using assms(1) by (simp add: pin_defs)
  have "loop_turn (c # rest) s = SetSDPState (c = 0x50) ?s"
    using assms(2) by (auto simp add: loop_turn_def dispatch_def Let_def c simp del: g_at_0_Cons)
  then show ?thesis
    using assms(1) by (simp add: SetSDPState_chip [OF l])
qed

text \<open>A chip whose byte 0 is 0x42 still has 0x42 there after \<open>P\<close> and after \<open>U\<close>.\<close>

theorem SDP_preserves_byte_0_witness:
  "chip (loop_turn (bytes_of ''P'') (ready_state (\<lambda>a. if a = 0 then 0x42 else 0xFF) [])) 0 = 0x42
   \<and> chip (loop_turn (bytes_of ''U'') (ready_state (\<lambda>a. if a = 0 then 0x42 else 0xFF) [])) 0 = 0x42"
  using SDP_preserves_byte_0 [of "ready_state (\<lambda>a. if a = 0 then 0x42 else 0xFF) []" "0x50" "[]"]
    SDP_preserves_byte_0 [of "ready_state (\<lambda>a. if a = 0 then 0x42 else 0xFF) []" "0x55" "[]"]
  by (simp add: ready_state_def bytes_of_def)

subsection \<open>Reading\<close>

text \<open>
  Claim C7. A line that starts with \<open>R\<close> and has at least one more printable character
  is answered with the four hexadecimal digits of the parsed address, a colon, the two
  lower-case hexadecimal digits of each of the 16 bytes read from the chip from that
  address on, a comma, the two digits of the XOR of the 16 bytes, and then \<open>OK\<close> on a
  line of its own. The address is the value of the first four characters after the
  \<open>R\<close>; the chip is addressed with its low 15 bits.
\<close>

theorem read_reply:
  assumes "level s kPin_nWE" and "filter (\<lambda>c. 31 < c) rest \<noteq> []"
  shows "let addr = hex_value (take 4 (filter (\<lambda>c. 31 < c) rest));
             bytes = chip_bytes s addr 16
         in serial (loop_turn (0x52 # rest) s) =
              serial s @ hex4 addr @ '':'' @ concat (map hex2 bytes) @ '','' @
              hex2 (xor_sum bytes) @ crlf @ ''OK'' @ crlf"
proof -
  let ?s = "digitalWrite kPin_WaitingForInput LOW
    (ReadString (0x52 # rest) (digitalWrite kPin_WaitingForInput HIGH s))"
  have g: "g_cmd ?s = 0x52 # filter (\<lambda>c. 31 < c) rest"
    by simp
  obtain c cs where f: "filter (\<lambda>c. 31 < c) rest = c # cs"
    using assms(2) by (cases "filter (\<lambda>c. 31 < c) rest") auto
  then have "c \<in> set (filter (\<lambda>c. 31 < c) rest)"
    by simp
  then have "31 < c" by simp
  then have "c \<noteq> 0" by auto
  then have g1: "g_at ?s 1 \<noteq> 0"
    by (simp add: g_at_def f)
  have g0: "g_at ?s 0 = 0x52"
    by (simp add: g_at_def)
  have l: "level ?s kPin_nWE" "chip ?s = chip s" "serial ?s = serial s"
    using assms(1) by simp_all
  have cb: "chip_bytes ?s a n = chip_bytes s a n" for a n
    by (simp add: chip_bytes_def l)
  have a: "snd (addr_loop4 ?s 1 0) = hex_value (take 4 (filter (\<lambda>c. 31 < c) rest))"
    by (simp add: addr_loop4_eq g printable_nonzero hex_value_def)
  have d: "loop_turn (0x52 # rest) s = ReadEEPROM ?s"
    unfolding loop_turn_eq by (simp add: dispatch_def Let_def g0)
  show ?thesis
    unfolding d Let_def using ReadEEPROM_eq [OF g1 l(1)]
    by (simp only: a cb l)
qed

text \<open>
  On a chip whose bytes are all 0xFF, \<open>R0000\<close> is answered with
  \<open>0000:ffffffffffffffffffffffffffffffff,00\<close> and \<open>OK\<close>.
\<close>

theorem read_reply_witness:
  "serial (loop_turn (bytes_of ''R0000'') (ready_state (\<lambda>a. 0xFF) [])) =
     ''0000:ffffffffffffffffffffffffffffffff,00'' @ crlf @ ''OK'' @ crlf"
proof -
  let ?s = "ready_state (\<lambda>a. 0xFF) []"
  have l: "level ?s kPin_nWE" "serial ?s = []"
    by (simp_all add: ready_state_def)
  have r: "bytes_of ''R0000'' = 0x52 # [0x30, 0x30, 0x30, 0x30]"
    by (simp add: bytes_of_def)
  have f: "filter (\<lambda>c. 31 < c) [0x30, 0x30, 0x30, 0x30 :: byte] = [0x30, 0x30, 0x30, 0x30]"
    by simp
  have a: "hex_value (take 4 [0x30, 0x30, 0x30, 0x30]) = 0"
    by (simp add: hex_value_def HexToVal_def)
  have c: "chip_bytes ?s 0 16 = replicate 16 0xFF"
    by (simp add: chip_bytes_def ready_state_def map_replicate_const)
  have x: "xor_sum (replicate 16 0xFF) = 0"
    by code_simp
  have h: "hex4 0 = ''0000''" "hex2 0 = ''00''" "hex2 0xFF = ''ff''"
    by (simp_all add: hex4_def hex2_def hex_def)
  have cc: "concat (map hex2 (replicate 16 0xFF)) = ''ffffffffffffffffffffffffffffffff''"
    by (simp add: h numeral_eq_Suc)
  from f have ne: "filter (\<lambda>c. 31 < c) [0x30, 0x30, 0x30, 0x30 :: byte] \<noteq> []"
    by simp
  show ?thesis
    using read_reply [OF l(1) ne]
    unfolding r f a c x h cc l Let_def by simp
qed

subsection \<open>Checksum mismatch on a write\<close>

text \<open>
  Claim C1, as amended. A \<open>W\<close> line is parsed by the address loop up to the colon and
  by the payload loop. When the payload loop stops at a comma that is followed by two
  characters, and the byte these two encode differs from the XOR of the bytes decoded
  into the Transfer Buffer, the handler sends \<open>ERR\<close>, the provided byte and the computed
  byte (each as \<open>Serial.print(b, HEX)\<close> prints it) and returns. The state after the
  command is the state before it with the decoded bytes in the Transfer Buffer and the
  reply appended to the serial output: the chip, the Page Buffer, the Base Address and
  the pins are what they were.
\<close>

theorem checksum_mismatch:
  assumes "g_at s 0 = 0x57" and "g_at s 1 \<noteq> 0"
    and "addr_loop_colon s 1 0 = (x0, addr)" and "g_at s x0 = 0x3A"
    and "data_loop (x0 + 1) 0 s = (x, n, s')"
    and "g_at s x = 0x2C" and "g_at s (x + 1) \<noteq> 0" and "g_at s (x + 2) \<noteq> 0"
    and "provided = push_bit 4 (HexToVal (g_at s (x + 1))) OR HexToVal (g_at s (x + 2))"
    and "computed = xor_sum (map (buffer s') [0..<n])"
    and "computed \<noteq> provided"
  shows "dispatch s = s\<lparr>buffer := buffer s',
      serial := serial s @ ''ERR '' @ print_HEX provided @ '' '' @ print_HEX computed @ crlf\<rparr>
    \<and> chip (dispatch s) = chip s \<and> pageWr (dispatch s) = pageWr s
    \<and> baseAddr (dispatch s) = baseAddr s \<and> level (dispatch s) = level s
    \<and> mode (dispatch s) = mode s \<and> oob (dispatch s) = oob s"
  using WriteEEPROM_mismatch [OF assms] by simp

text \<open>The line \<open>W0000:AA,BB\<close> is answered with \<open>ERR BB AA\<close> and leaves the chip alone.\<close>

theorem checksum_mismatch_witness:
  "dispatch (ready_state (\<lambda>a. 0xFF) (bytes_of ''W0000:AA,BB'')) =
     (ready_state (\<lambda>a. 0xFF) (bytes_of ''W0000:AA,BB''))
       \<lparr>buffer := (\<lambda>i. 0)(0 := 0xAA), serial := ''ERR BB AA'' @ crlf\<rparr>
   \<and> chip (dispatch (ready_state (\<lambda>a. 0xFF) (bytes_of ''W0000:AA,BB''))) = (\<lambda>a. 0xFF)"
  using checksum_mismatch [OF mismatch_example(1-10)] mismatch_example(11-14)
  by (simp add: ready_state_def)

text \<open>
  The claim as stated, no state mutation at all, fails: after \<open>W0000:AA,BB\<close> the first
  byte of the Transfer Buffer is 0xAA, and it was 0 before.
\<close>

theorem checksum_mismatch_counterexample:
  "buffer (ready_state (\<lambda>a. 0xFF) (bytes_of ''W0000:AA,BB'')) 0 = 0
   \<and> buffer (dispatch (ready_state (\<lambda>a. 0xFF) (bytes_of ''W0000:AA,BB''))) 0 = 0xAA"
  using WriteEEPROM_mismatch [OF mismatch_example(1-10)] mismatch_example(13)
  by simp

subsection \<open>The checksum validates the payload\<close>

text \<open>
  Claim C4. A \<open>W\<close> line with a payload of at most 16 bytes and the XOR of the payload as
  its checksum is answered with \<open>OK\<close>. The same line with one bit of one payload byte
  flipped and the checksum kept is answered with \<open>ERR\<close>, the stated and the computed
  checksum, and the chip is not written. The address characters are printable and none
  is a colon; the command starts with nWE high.
\<close>

theorem xor_checksum_validates:
  assumes "level s kPin_nWE" and "\<forall>c\<in>set a. 31 < c \<and> c \<noteq> 0x3A" and "length bs \<le> 16"
  shows "serial (loop_turn (W_line a bs (xor_sum bs)) s) = serial s @ ''OK'' @ crlf
    \<and> (\<forall>i<length bs. \<forall>k<8.
         serial (loop_turn (W_line a (bs[i := bs ! i XOR 2 ^ k]) (xor_sum bs)) s) =
           serial s @ ''ERR '' @ print_HEX (xor_sum bs) @ '' '' @
           print_HEX (xor_sum (bs[i := bs ! i XOR 2 ^ k])) @ crlf
         \<and> chip (loop_turn (W_line a (bs[i := bs ! i XOR 2 ^ k]) (xor_sum bs)) s) = chip s)"
proof (intro conjI allI impI)
  from assms(3) have l: "length bs \<le> kMaxBufferSize"
    by (simp add: kMaxBufferSize_def)
  from W_line_run [OF assms(1,2) l, of "xor_sum bs"]
  show "serial (loop_turn (W_line a bs (xor_sum bs)) s) = serial s @ ''OK'' @ crlf"
    by simp
  fix i k :: nat
  assume i: "i < length bs" and k: "k < 8"
  let ?bs = "bs[i := bs ! i XOR 2 ^ k]"
  from l have l': "length ?bs \<le> kMaxBufferSize" by simp
  from xor_sum_flip [OF i k] have ne: "xor_sum bs \<noteq> xor_sum ?bs" by simp
  from W_line_run [OF assms(1,2) l', of "xor_sum bs"] ne
  show "serial (loop_turn (W_line a ?bs (xor_sum bs)) s) =
      serial s @ ''ERR '' @ print_HEX (xor_sum bs) @ '' '' @ print_HEX (xor_sum ?bs) @ crlf"
    and "chip (loop_turn (W_line a ?bs (xor_sum bs)) s) = chip s"
    by simp_all
qed

text \<open>
  The line \<open>W0000:aa,aa\<close> is answered with \<open>OK\<close>; with the lowest bit of the byte
  flipped, \<open>W0000:ab,aa\<close>, the answer is \<open>ERR AA AB\<close> and the chip keeps its contents.
\<close>

theorem xor_checksum_validates_witness:
  "serial (loop_turn (bytes_of ''W0000:aa,aa'') (ready_state (\<lambda>a. 0xFF) [])) = ''OK'' @ crlf
   \<and> serial (loop_turn (bytes_of ''W0000:ab,aa'') (ready_state (\<lambda>a. 0xFF) [])) = ''ERR AA AB'' @ crlf
   \<and> chip (loop_turn (bytes_of ''W0000:ab,aa'') (ready_state (\<lambda>a. 0xFF) [])) = (\<lambda>a. 0xFF)"
proof -
  let ?s = "ready_state (\<lambda>a. 0xFF) []"
  let ?a = "bytes_of ''0000''"
  have h: "level ?s kPin_nWE" "\<forall>c\<in>set ?a. 31 < c \<and> c \<noteq> 0x3A" "length [0xAA :: byte] \<le> 16"
    by (simp_all add: ready_state_def bytes_of_def)
  have x: "xor_sum [0xAA] = 0xAA" "[0xAA :: byte][0 := [0xAA] ! 0 XOR 2 ^ 0] = [0xAB]"
    "xor_sum [0xAB] = 0xAB"
    by (simp_all add: xor_sum_def)
  have w: "W_line ?a [0xAA] 0xAA = bytes_of ''W0000:aa,aa''"
    "W_line ?a [0xAB] 0xAA = bytes_of ''W0000:ab,aa''"
    by (simp_all add: W_line_def hex_encode_def hex2_def hex_def bytes_of_def)
  have p: "print_HEX 0xAA = ''AA''" "print_HEX 0xAB = ''AB''"
    by (simp_all add: print_HEX_def HEX_digits_def)
  have s: "serial ?s = []" "chip ?s = (\<lambda>a. 0xFF)"
    by (simp_all add: ready_state_def)
  have i: "0 < length [0xAA :: byte]" "(0 :: nat) < 8"
    by simp_all
  note T = xor_checksum_validates [OF h]
  from T [THEN conjunct1] T [THEN conjunct2, rule_format, OF i]
  have "serial (loop_turn (W_line ?a [0xAA] 0xAA) ?s) = ''OK'' @ crlf
    \<and> serial (loop_turn (W_line ?a [0xAB] 0xAA) ?s) = ''ERR AA AB'' @ crlf
    \<and> chip (loop_turn (W_line ?a [0xAB] 0xAA) ?s) = (\<lambda>a. 0xFF)"
    unfolding x p s by simp
  then show ?thesis
    unfolding w .
qed

subsection \<open>Payloads of more than 16 bytes\<close>




subsection \<open>Preparing the Page Buffer\<close>

text \<open>
  Claim C2. After an \<open>N\<close> command with an address, every byte 0..127 of the Page Buffer
  should be 0xFF, the Base Address should be the parsed address and \<open>OK\<close> should be sent.
  The Base Address and the reply are as claimed, but the fill loop of \<open>PrepareBuffer\<close>
  stores to \<open>pageWr[kPageSize]\<close> at each of its 128 rounds instead of \<open>pageWr[x]\<close>:
  after \<open>N0100\<close> on a freshly started programmer the 128 bytes of the Page Buffer are
  still 0, and 128 stores went to index 128, one past the array.
\<close>

theorem prepare_leaves_page_buffer:
  "map (pageWr (loop_turn (bytes_of ''N0100'') (ready_state (\<lambda>a. 0xFF) []))) [0..<128] =
     replicate 128 0
   \<and> baseAddr (loop_turn (bytes_of ''N0100'') (ready_state (\<lambda>a. 0xFF) [])) = 0x0100
   \<and> serial (loop_turn (bytes_of ''N0100'') (ready_state (\<lambda>a. 0xFF) [])) = ''OK'' @ crlf
   \<and> oob (loop_turn (bytes_of ''N0100'') (ready_state (\<lambda>a. 0xFF) [])) =
     replicate 128 (PageWr_index 128)"
proof -
  let ?s = "ready_state (\<lambda>a. 0xFF) []"
  let ?s1 = "digitalWrite kPin_WaitingForInput LOW
    (ReadString (bytes_of ''N0100'') (digitalWrite kPin_WaitingForInput HIGH ?s))"
  have r: "filter (\<lambda>c. 31 < c) (bytes_of ''N0100'') = [0x4E, 0x30, 0x31, 0x30, 0x30]"
    by (simp add: bytes_of_def)
  have g: "g_cmd ?s1 = [0x4E, 0x30, 0x31, 0x30, 0x30]"
    by (simp add: r)
  have g1: "g_at ?s1 1 \<noteq> 0"
    unfolding g_at_def g by simp
  have d: "loop_turn (bytes_of ''N0100'') ?s = PrepareBuffer ?s1"
    unfolding loop_turn_eq dispatch_def g_at_def g by simp
  have a: "snd (addr_loop4 ?s1 1 0) = 0x0100"
    by (simp add: addr_loop4_eq r HexToVal_def)
  have s: "pageWr ?s = (\<lambda>i. 0)" "serial ?s = []" "oob ?s = []"
    by (simp_all add: ready_state_def)
  have p: "map (((\<lambda>i. 0) :: nat \<Rightarrow> byte)(kPageSize := 0xFF)) [0..<128] = replicate 128 0"
    by (rule nth_equalityI) (simp_all add: kPageSize_def)
  show ?thesis
    unfolding d PrepareBuffer_eq [OF g1] a
    using p by (simp add: s kPageSize_def)
qed


subsection \<open>Filling the Page Buffer\<close>

text \<open>
  Claim C3. An \<open>S\<close> command that decodes n bytes should store exactly those n bytes at
  \<open>(addr & 0x7F) .. (addr & 0x7F) + n - 1\<close> of the Page Buffer and leave the other bytes
  alone. \<open>FillBuffer\<close> increments \<open>iBufferUsed\<close> before its copy loop, so the loop copies
  \<open>buffer[0] .. buffer[n]\<close>, one byte more than was decoded. After \<open>W0000:aabb\<close>
  the Transfer Buffer holds AA BB; \<open>S00:11\<close> then decodes the one byte 11 and stores
  11 at index 0 and the stale BB at index 1 of the Page Buffer, which was 0 before.
\<close>

theorem fill_copies_a_stale_byte:
  "map (pageWr (loop_turn (bytes_of ''W0000:aabb'') (ready_state (\<lambda>a. 0xFF) []))) [0..<3] =
     [0, 0, 0]
   \<and> map (pageWr (loop_turn (bytes_of ''S00:11'')
          (loop_turn (bytes_of ''W0000:aabb'') (ready_state (\<lambda>a. 0xFF) [])))) [0..<3] =
     [0x11, 0xBB, 0]
   \<and> serial (loop_turn (bytes_of ''S00:11'')
          (loop_turn (bytes_of ''W0000:aabb'') (ready_state (\<lambda>a. 0xFF) []))) =
     ''OK'' @ crlf @ ''OK'' @ crlf"
proof -
  let ?s = "ready_state (\<lambda>a. 0xFF) []"
  let ?s1 = "loop_turn (bytes_of ''W0000:aabb'') ?s"
  have w: "bytes_of ''W0000:aabb'' = 0x57 # bytes_of ''0000'' @ 0x3A # hex_encode [0xAA, 0xBB]"
    "bytes_of ''S00:11'' = 0x53 # bytes_of ''00'' @ 0x3A # hex_encode [0x11]"
    by (simp_all add: hex_encode_def hex2_def hex_def bytes_of_def)
  have h: "\<forall>c\<in>set (bytes_of ''0000''). 31 < c \<and> c \<noteq> 0x3A"
    "\<forall>c\<in>set (bytes_of ''00''). 31 < c \<and> c \<noteq> 0x3A"
    "length [0xAA, 0xBB :: byte] \<le> kMaxBufferSize" "length [0x11 :: byte] \<le> kMaxBufferSize"
    by (simp_all add: bytes_of_def kMaxBufferSize_def)
  note W = W_line_nochk_run [OF h(1) h(3), of ?s, folded w]
  from W have b1: "buffer ?s1 (Suc 0) = 0xBB"
    by simp
  from W have p1: "pageWr ?s1 = (\<lambda>i. 0)" "serial ?s1 = ''OK'' @ crlf"
    by (simp_all add: ready_state_def)
  have a: "unat (hex_value (bytes_of ''00'') AND 0x7F) = 0"
    by (simp add: hex_value_def bytes_of_def HexToVal_def)
  have u: "[0..<3] = [0, 1, 2]"
    by (simp add: upt_rec)
  note S = S_line_run [OF h(2) h(4), of ?s1, folded w]
  show ?thesis
    unfolding S u by (simp add: FillBuffer_copy_pageWr FillBuffer_copy_frame a b1 p1)
qed


subsection \<open>Array bounds of the page commands\<close>

text \<open>
  Claim C9. Every store of \<open>PrepareBuffer\<close> and \<open>FillBuffer\<close> into the Page Buffer should
  have an index below 128, and every load from the Transfer Buffer an index below 16.
  Three lines on a freshly started programmer show otherwise: \<open>N0\<close> stores 128 times
  to \<open>pageWr[128]\<close>; \<open>S7f:11\<close> copies two bytes to offset 127 and so stores to
  \<open>pageWr[128]\<close>; an \<open>S\<close> line with 16 bytes loads \<open>buffer[16]\<close>.
\<close>

theorem page_accesses_out_of_bounds:
  "oob (loop_turn (bytes_of ''N0'') (ready_state (\<lambda>a. 0xFF) [])) =
     replicate 128 (PageWr_index 128)
   \<and> oob (loop_turn (bytes_of ''S7f:11'') (ready_state (\<lambda>a. 0xFF) [])) = [PageWr_index 128]
   \<and> oob (loop_turn (bytes_of ''S00:000102030405060708090a0b0c0d0e0f'')
          (ready_state (\<lambda>a. 0xFF) [])) = [Buffer_index 16]"
proof -
  let ?s = "ready_state (\<lambda>a. 0xFF) []"
  let ?bs = "[0, 1, 2, 3, 4, 5, 6, 7, 8, 9, 10, 11, 12, 13, 14, 15] :: byte list"
  let ?n1 = "digitalWrite kPin_WaitingForInput LOW
    (ReadString (bytes_of ''N0'') (digitalWrite kPin_WaitingForInput HIGH ?s))"
  have f: "filter (\<lambda>c. 31 < c) (bytes_of ''N0'') = [0x4E, 0x30]"
    by (simp add: bytes_of_def)
  have g: "g_cmd ?n1 = [0x4E, 0x30]"
    by (simp add: f)
  have g1: "g_at ?n1 1 \<noteq> 0"
    unfolding g_at_def g by simp
  have d: "loop_turn (bytes_of ''N0'') ?s = PrepareBuffer ?n1"
    unfolding loop_turn_eq dispatch_def g_at_def g by simp
  have n: "oob (loop_turn (bytes_of ''N0'') ?s) = replicate 128 (PageWr_index 128)"
    unfolding d PrepareBuffer_eq [OF g1] by (simp add: ready_state_def kPageSize_def)
  have w: "bytes_of ''S7f:11'' = 0x53 # bytes_of ''7f'' @ 0x3A # hex_encode [0x11]"
    "bytes_of ''S00:000102030405060708090a0b0c0d0e0f'' =
       0x53 # bytes_of ''00'' @ 0x3A # hex_encode ?bs"
    by (simp_all add: hex_encode_def hex2_def hex_def bytes_of_def)
  have h: "\<forall>c\<in>set (bytes_of ''7f''). 31 < c \<and> c \<noteq> 0x3A"
    "\<forall>c\<in>set (bytes_of ''00''). 31 < c \<and> c \<noteq> 0x3A"
    "length [0x11 :: byte] \<le> kMaxBufferSize" "length ?bs \<le> kMaxBufferSize"
    by (simp_all add: bytes_of_def kMaxBufferSize_def)
  have a: "unat (hex_value (bytes_of ''7f'') AND 0x7F) = 127"
    "unat (hex_value (bytes_of ''00'') AND 0x7F) = 0"
    by (simp_all add: hex_value_def bytes_of_def HexToVal_def)
  have r: "rev [0..<Suc (Suc 0)] = [1, 0]"
    "rev [0..<17] = [16, 15, 14, 13, 12, 11, 10, 9, 8, 7, 6, 5, 4, 3, 2, 1, 0]"
    by code_simp+
  have o: "oob ?s = []"
    by (simp add: ready_state_def)
  note S1 = S_line_run [OF h(1) h(3), of ?s, folded w]
  note S2 = S_line_run [OF h(2) h(4), of ?s, folded w]
  have s1: "oob (loop_turn (bytes_of ''S7f:11'') ?s) = [PageWr_index 128]"
    unfolding S1 by (simp add: FillBuffer_copy_oob a r o kMaxBufferSize_def kPageSize_def)
  have s2: "oob (loop_turn (bytes_of ''S00:000102030405060708090a0b0c0d0e0f'') ?s) =
      [Buffer_index 16]"
    unfolding S2 by (simp add: FillBuffer_copy_oob a r o kMaxBufferSize_def kPageSize_def)
  from n s1 s2 show ?thesis
    by simp
qed

end
